theory Spec2Isabelle
  imports Complex_Main "HOL-Library.Log_Nat"
begin

section \<open>Non-layered tidy tree layout (layout.hpp)\<close>

text \<open>
  The header \<^verbatim>\<open>layout.hpp\<close> lays out a tree of heap-allocated nodes that point to
  each other (children, parent, threads, extreme nodes) and are mutated in place. The
  embedding therefore uses an explicit store: a list of nodes, a node's address being its
  position in the list, and a pointer being an optional address (\<open>None\<close> is
  \<^verbatim>\<open>nullptr\<close>). Every dereference of a null or dangling pointer and every
  out-of-range index into a \<^verbatim>\<open>children\<close> vector is an error value, so that the
  model fails exactly where the C++ has undefined behaviour.

  \<^verbatim>\<open>double\<close> is modelled by \<^typ>\<open>real\<close>: rounding, infinities and NaN are not
  represented. The \<^verbatim>\<open>int\<close> indices are modelled by \<^typ>\<open>int\<close>.

  Recursion over the pointer structure and the contour walk of \<^verbatim>\<open>separate\<close> are
  not structurally terminating on an arbitrary store (a cyclic store makes them run
  forever), so they carry a fuel argument, and running out of fuel is the error
  \<open>OutOfFuel\<close>.
\<close>

subsection \<open>Errors\<close>

datatype error = NullDeref | Dangling | OutOfBounds | OutOfFuel

type_synonym 'a result = "error + 'a"

definition rbind :: "'a result \<Rightarrow> ('a \<Rightarrow> 'b result) \<Rightarrow> 'b result" where
  "rbind m f = (case m of Inl e \<Rightarrow> Inl e | Inr v \<Rightarrow> f v)"

subsection \<open>Nodes and the store\<close>

type_synonym ptr = "nat option"

text \<open>
  The fields of the \<^verbatim>\<open>TreeNode\<close> concept (plus \<^verbatim>\<open>msel\<close> and \<^verbatim>\<open>mser\<close>,
  which the code uses), each prefixed with \<open>n_\<close>. The last two fields are ghost
  counters: the number of assignments made so far to \<^verbatim>\<open>x\<close> and to \<^verbatim>\<open>y\<close>.
\<close>

record node =
  n_children :: "nat list"
  n_parent :: ptr
  n_x :: real
  n_y :: real
  n_w :: real
  n_h :: real
  n_prelim :: real
  n_mod :: real
  n_shift :: real
  n_change :: real
  n_tl :: ptr
  n_tr :: ptr
  n_el :: ptr
  n_er :: ptr
  n_msel :: real
  n_mser :: real
  n_xw :: nat
  n_yw :: nat

type_synonym heap = "node list"

definition get :: "heap \<Rightarrow> nat \<Rightarrow> node result" where
  "get h a = (if a < length h then Inr (h ! a) else Inl Dangling)"

definition nonnull :: "ptr \<Rightarrow> nat result" where
  "nonnull p = (case p of None \<Rightarrow> Inl NullDeref | Some a \<Rightarrow> Inr a)"

definition modify :: "heap \<Rightarrow> nat \<Rightarrow> (node \<Rightarrow> node) \<Rightarrow> heap result" where
  "modify h a f = (if a < length h then Inr (h[a := f (h ! a)]) else Inl Dangling)"

text \<open>\<^verbatim>\<open>t->children[i]\<close> with an \<^verbatim>\<open>int\<close> index.\<close>

definition child :: "heap \<Rightarrow> nat \<Rightarrow> int \<Rightarrow> nat result" where
  "child h t i = rbind (get h t) (\<lambda>tn.
     if 0 \<le> i \<and> i < int (length (n_children tn)) then Inr (n_children tn ! nat i)
     else Inl OutOfBounds)"

text \<open>\<^verbatim>\<open>t->children[t->children.size() - 1]\<close>: on an empty vector the index wraps
  around and is out of range.\<close>

definition last_child :: "heap \<Rightarrow> nat \<Rightarrow> nat result" where
  "last_child h t = rbind (get h t) (\<lambda>tn. child h t (int (length (n_children tn)) - 1))"

text \<open>\<^verbatim>\<open>t->children[i]->field = ...\<close>\<close>

definition upd_child :: "heap \<Rightarrow> nat \<Rightarrow> int \<Rightarrow> (node \<Rightarrow> node) \<Rightarrow> heap result" where
  "upd_child h t i f = rbind (child h t i) (\<lambda>c. modify h c f)"

subsection \<open>The ancestor-skip list\<close>

datatype IYL = IYL (lowY: real) (index: int)

definition V_SPACING :: real where "V_SPACING = 20"
definition H_SPACING :: real where "H_SPACING = 20"

definition updateIYL :: "real \<Rightarrow> int \<Rightarrow> IYL list \<Rightarrow> IYL list" where
  "updateIYL miny i oldHead = IYL miny i # dropWhile (\<lambda>e. miny \<ge> lowY e) oldHead"

subsection \<open>Contour helpers\<close>

definition bottom :: "heap \<Rightarrow> nat \<Rightarrow> real result" where
  "bottom h t = rbind (get h t) (\<lambda>n. Inr (n_y n + n_h n))"

definition next_left_contour :: "heap \<Rightarrow> nat \<Rightarrow> ptr result" where
  "next_left_contour h t = rbind (get h t) (\<lambda>n.
     if length (n_children n) = 0 then Inr (n_tl n)
     else rbind (child h t 0) (\<lambda>c. Inr (Some c)))"

definition next_right_contour :: "heap \<Rightarrow> nat \<Rightarrow> ptr result" where
  "next_right_contour h t = rbind (get h t) (\<lambda>n.
     if length (n_children n) = 0 then Inr (n_tr n)
     else rbind (last_child h t) (\<lambda>c. Inr (Some c)))"

subsection \<open>Extremes, threads, root position\<close>

definition set_extremes :: "heap \<Rightarrow> nat \<Rightarrow> heap result" where
  "set_extremes h t = rbind (get h t) (\<lambda>tn.
     if length (n_children tn) = 0 then
       rbind (modify h t (\<lambda>n. n\<lparr>n_el := Some t\<rparr>)) (\<lambda>h1.
       rbind (modify h1 t (\<lambda>n. n\<lparr>n_er := Some t\<rparr>)) (\<lambda>h2.
       rbind (modify h2 t (\<lambda>n. n\<lparr>n_mser := 0\<rparr>)) (\<lambda>h3.
       modify h3 t (\<lambda>n. n\<lparr>n_msel := 0\<rparr>))))
     else
       rbind (child h t 0) (\<lambda>c. rbind (get h c) (\<lambda>cn.
       rbind (modify h t (\<lambda>n. n\<lparr>n_el := n_el cn\<rparr>)) (\<lambda>h1.
       rbind (child h1 t 0) (\<lambda>c1. rbind (get h1 c1) (\<lambda>cn1.
       rbind (modify h1 t (\<lambda>n. n\<lparr>n_msel := n_msel cn1\<rparr>)) (\<lambda>h2.
       rbind (last_child h2 t) (\<lambda>c2. rbind (get h2 c2) (\<lambda>cn2.
       rbind (modify h2 t (\<lambda>n. n\<lparr>n_er := n_er cn2\<rparr>)) (\<lambda>h3.
       rbind (last_child h3 t) (\<lambda>c3. rbind (get h3 c3) (\<lambda>cn3.
       modify h3 t (\<lambda>n. n\<lparr>n_mser := n_mser cn3\<rparr>)))))))))))))"

definition set_left_thread :: "heap \<Rightarrow> nat \<Rightarrow> int \<Rightarrow> nat \<Rightarrow> real \<Rightarrow> heap result" where
  "set_left_thread h t i cl modsumcl =
     rbind (child h t 0) (\<lambda>c0. rbind (get h c0) (\<lambda>c0n. rbind (nonnull (n_el c0n)) (\<lambda>li.
     rbind (modify h li (\<lambda>n. n\<lparr>n_tl := Some cl\<rparr>)) (\<lambda>h1.
     rbind (get h1 cl) (\<lambda>cln. rbind (child h1 t 0) (\<lambda>c1. rbind (get h1 c1) (\<lambda>c1n.
     let diff = (modsumcl - n_mod cln) - n_msel c1n in
     rbind (modify h1 li (\<lambda>n. n\<lparr>n_mod := n_mod n + diff\<rparr>)) (\<lambda>h2.
     rbind (modify h2 li (\<lambda>n. n\<lparr>n_prelim := n_prelim n - diff\<rparr>)) (\<lambda>h3.
     rbind (child h3 t i) (\<lambda>ci. rbind (get h3 ci) (\<lambda>cin.
     rbind (upd_child h3 t 0 (\<lambda>n. n\<lparr>n_el := n_el cin\<rparr>)) (\<lambda>h4.
     rbind (child h4 t i) (\<lambda>ci4. rbind (get h4 ci4) (\<lambda>cin4.
     upd_child h4 t 0 (\<lambda>n. n\<lparr>n_msel := n_msel cin4\<rparr>)))))))))))))))"

definition set_right_thread :: "heap \<Rightarrow> nat \<Rightarrow> int \<Rightarrow> nat \<Rightarrow> real \<Rightarrow> heap result" where
  "set_right_thread h t i sr modsumsr =
     rbind (child h t i) (\<lambda>c0. rbind (get h c0) (\<lambda>c0n. rbind (nonnull (n_er c0n)) (\<lambda>ri.
     rbind (modify h ri (\<lambda>n. n\<lparr>n_tr := Some sr\<rparr>)) (\<lambda>h1.
     rbind (get h1 sr) (\<lambda>srn. rbind (child h1 t i) (\<lambda>c1. rbind (get h1 c1) (\<lambda>c1n.
     let diff = (modsumsr - n_mod srn) - n_mser c1n in
     rbind (modify h1 ri (\<lambda>n. n\<lparr>n_mod := n_mod n + diff\<rparr>)) (\<lambda>h2.
     rbind (modify h2 ri (\<lambda>n. n\<lparr>n_prelim := n_prelim n - diff\<rparr>)) (\<lambda>h3.
     rbind (child h3 t (i - 1)) (\<lambda>cp. rbind (get h3 cp) (\<lambda>cpn.
     rbind (upd_child h3 t i (\<lambda>n. n\<lparr>n_er := n_er cpn\<rparr>)) (\<lambda>h4.
     rbind (child h4 t (i - 1)) (\<lambda>cp4. rbind (get h4 cp4) (\<lambda>cpn4.
     upd_child h4 t i (\<lambda>n. n\<lparr>n_mser := n_mser cpn4\<rparr>)))))))))))))))"

definition position_root :: "heap \<Rightarrow> nat \<Rightarrow> heap result" where
  "position_root h t =
     rbind (child h t 0) (\<lambda>c0. rbind (get h c0) (\<lambda>c0n.
     rbind (last_child h t) (\<lambda>cl. rbind (get h cl) (\<lambda>cln.
     rbind (get h t) (\<lambda>tn.
     modify h t (\<lambda>n. n\<lparr>n_prelim :=
       (n_prelim c0n + n_mod c0n + n_mod cln + n_prelim cln + n_w cln) / 2 - n_w tn / 2\<rparr>))))))"

subsection \<open>Moving a subtree\<close>

definition distribute_extra :: "heap \<Rightarrow> nat \<Rightarrow> int \<Rightarrow> int \<Rightarrow> real \<Rightarrow> heap result" where
  "distribute_extra h t i si dst =
     (if si \<noteq> i - 1 then
        let nr = real_of_int (i - si) in
        rbind (upd_child h t (si + 1) (\<lambda>n. n\<lparr>n_shift := n_shift n + dst / nr\<rparr>)) (\<lambda>h1.
        rbind (upd_child h1 t i (\<lambda>n. n\<lparr>n_shift := n_shift n - dst / nr\<rparr>)) (\<lambda>h2.
        upd_child h2 t i (\<lambda>n. n\<lparr>n_change := n_change n - (dst - dst / nr)\<rparr>)))
      else Inr h)"

definition move_subtree :: "heap \<Rightarrow> nat \<Rightarrow> int \<Rightarrow> int \<Rightarrow> real \<Rightarrow> heap result" where
  "move_subtree h t i si dst =
     rbind (upd_child h t i (\<lambda>n. n\<lparr>n_mod := n_mod n + dst\<rparr>)) (\<lambda>h1.
     rbind (upd_child h1 t i (\<lambda>n. n\<lparr>n_msel := n_msel n + dst\<rparr>)) (\<lambda>h2.
     rbind (upd_child h2 t i (\<lambda>n. n\<lparr>n_mser := n_mser n + dst\<rparr>)) (\<lambda>h3.
     distribute_extra h3 t i si dst)))"

subsection \<open>Separating the subtree of child \<open>i\<close> from its left siblings\<close>

text \<open>The local variables of the \<^verbatim>\<open>while (sr && cl)\<close> loop of \<^verbatim>\<open>separate\<close>,
  together with the store.\<close>

record sep_state =
  st_heap :: heap
  st_cursor :: "IYL list"
  st_sr :: ptr
  st_cl :: ptr
  st_mssr :: real
  st_mscl :: real

text \<open>Following a contour and adding the \<^verbatim>\<open>mod\<close> of the node reached, if
  there is one.\<close>

definition advance :: "heap \<Rightarrow> ptr result \<Rightarrow> real \<Rightarrow> (ptr \<times> real) result" where
  "advance h nxt ms = rbind nxt (\<lambda>p. case p of
       None \<Rightarrow> Inr (None, ms)
     | Some a \<Rightarrow> rbind (get h a) (\<lambda>an. Inr (Some a, ms + n_mod an)))"

text \<open>One iteration of the loop body, entered with \<open>sr = Some s\<close> and \<open>cl = Some c\<close>.\<close>

definition separate_step ::
  "heap \<Rightarrow> nat \<Rightarrow> int \<Rightarrow> IYL list \<Rightarrow> nat \<Rightarrow> nat \<Rightarrow> real \<Rightarrow> real \<Rightarrow> sep_state result" where
  "separate_step h t i cursor s c mssr mscl =
     rbind (bottom h s) (\<lambda>bs.
     let cursor' = dropWhile (\<lambda>e. bs > lowY e) cursor in
     rbind (get h s) (\<lambda>sn. rbind (get h c) (\<lambda>cn.
     let dst = (mssr + n_prelim sn + n_w sn + H_SPACING) - (mscl + n_prelim cn) in
     rbind (if dst > 0
            then move_subtree h t i (case cursor' of [] \<Rightarrow> i - 1 | e # _ \<Rightarrow> index e) dst
            else Inr h) (\<lambda>h1.
     let mscl1 = (if dst > 0 then mscl + dst else mscl) in
     rbind (bottom h1 s) (\<lambda>sy. rbind (bottom h1 c) (\<lambda>cy.
     rbind (if sy \<le> cy then advance h1 (next_right_contour h1 s) mssr
            else Inr (Some s, mssr)) (\<lambda>(sr', mssr').
     rbind (if sy \<ge> cy then advance h1 (next_left_contour h1 c) mscl1
            else Inr (Some c, mscl1)) (\<lambda>(cl', mscl').
     Inr \<lparr>st_heap = h1, st_cursor = cursor', st_sr = sr', st_cl = cl',
          st_mssr = mssr', st_mscl = mscl'\<rparr>))))))))"

fun separate_loop :: "nat \<Rightarrow> nat \<Rightarrow> int \<Rightarrow> sep_state \<Rightarrow> sep_state result" where
  "separate_loop 0 t i st =
     (case (st_sr st, st_cl st) of
        (Some s, Some c) \<Rightarrow> Inl OutOfFuel
      | _ \<Rightarrow> Inr st)"
| "separate_loop (Suc n) t i st =
     (case (st_sr st, st_cl st) of
        (Some s, Some c) \<Rightarrow>
          rbind (separate_step (st_heap st) t i (st_cursor st) s c (st_mssr st) (st_mscl st))
            (separate_loop n t i)
      | _ \<Rightarrow> Inr st)"

definition separate :: "nat \<Rightarrow> heap \<Rightarrow> nat \<Rightarrow> int \<Rightarrow> IYL list \<Rightarrow> heap result" where
  "separate fuel h t i ih =
     rbind (child h t (i - 1)) (\<lambda>sr. rbind (get h sr) (\<lambda>srn.
     rbind (child h t i) (\<lambda>cl. rbind (get h cl) (\<lambda>cln.
     rbind (separate_loop fuel t i
              \<lparr>st_heap = h, st_cursor = ih, st_sr = Some sr, st_cl = Some cl,
               st_mssr = n_mod srn, st_mscl = n_mod cln\<rparr>) (\<lambda>st.
     case (st_sr st, st_cl st) of
       (None, Some c) \<Rightarrow> set_left_thread (st_heap st) t i c (st_mscl st)
     | (Some s, None) \<Rightarrow> set_right_thread (st_heap st) t i s (st_mssr st)
     | _ \<Rightarrow> Inr (st_heap st))))))"

subsection \<open>The bottom-up pass\<close>

definition set_y :: "heap \<Rightarrow> nat \<Rightarrow> real \<Rightarrow> heap result" where
  "set_y h t v = modify h t (\<lambda>n. n\<lparr>n_y := v, n_yw := Suc (n_yw n)\<rparr>)"

text \<open>The first statement of \<^verbatim>\<open>firstwalk\<close>: the row of \<open>t\<close> is below its parent's, or
  0 for a node without parent.\<close>

definition assign_y :: "heap \<Rightarrow> nat \<Rightarrow> heap result" where
  "assign_y h t = rbind (get h t) (\<lambda>tn.
     case n_parent tn of
       Some p \<Rightarrow> rbind (get h p) (\<lambda>pn. set_y h t (n_y pn + n_h pn + V_SPACING))
     | None \<Rightarrow> set_y h t 0)"

fun firstwalk :: "nat \<Rightarrow> heap \<Rightarrow> nat \<Rightarrow> heap result"
  and firstwalk_loop :: "nat \<Rightarrow> heap \<Rightarrow> nat \<Rightarrow> int \<Rightarrow> IYL list \<Rightarrow> heap result" where
  "firstwalk 0 h t = Inl OutOfFuel"
| "firstwalk (Suc n) h t =
     rbind (assign_y h t) (\<lambda>h1.
     rbind (get h1 t) (\<lambda>tn1.
     if n_children tn1 = [] then set_extremes h1 t
     else
       rbind (child h1 t 0) (\<lambda>c0. rbind (firstwalk n h1 c0) (\<lambda>h2.
       rbind (child h2 t 0) (\<lambda>c0'. rbind (bottom h2 c0') (\<lambda>b.
       rbind (firstwalk_loop n h2 t 1 (updateIYL b 0 [])) (\<lambda>h3.
       rbind (position_root h3 t) (\<lambda>h4.
       set_extremes h4 t))))))))"
| "firstwalk_loop 0 h t i ih = Inl OutOfFuel"
| "firstwalk_loop (Suc n) h t i ih =
     rbind (get h t) (\<lambda>tn.
     if i < int (length (n_children tn)) then
       rbind (child h t i) (\<lambda>c. rbind (firstwalk n h c) (\<lambda>h1.
       rbind (child h1 t i) (\<lambda>c'. rbind (bottom h1 c') (\<lambda>minY.
       rbind (separate n h1 t i ih) (\<lambda>h2.
       firstwalk_loop n h2 t (i + 1) (updateIYL minY i ih))))))
     else Inr h)"

subsection \<open>The top-down pass\<close>

text \<open>The loop of \<^verbatim>\<open>add_child_spacing\<close>, with its accumulators \<^verbatim>\<open>d\<close> and
  \<^verbatim>\<open>modsumdelta\<close>. No statement of the body changes a \<^verbatim>\<open>children\<close> vector, so
  the bound is read once.\<close>

fun add_child_spacing_loop ::
  "nat \<Rightarrow> int list \<Rightarrow> real \<Rightarrow> real \<Rightarrow> heap \<Rightarrow> heap result" where
  "add_child_spacing_loop t [] d modsumdelta h = Inr h"
| "add_child_spacing_loop t (i # is) d modsumdelta h =
     rbind (child h t i) (\<lambda>c. rbind (get h c) (\<lambda>cn.
     let d1 = d + n_shift cn in
     rbind (child h t i) (\<lambda>c'. rbind (get h c') (\<lambda>cn'.
     let m1 = modsumdelta + (d1 + n_change cn') in
     rbind (upd_child h t i (\<lambda>n. n\<lparr>n_mod := n_mod n + m1\<rparr>))
       (add_child_spacing_loop t is d1 m1)))))"

definition add_child_spacing :: "heap \<Rightarrow> nat \<Rightarrow> heap result" where
  "add_child_spacing h t = rbind (get h t) (\<lambda>tn.
     add_child_spacing_loop t (map int [0 ..< length (n_children tn)]) 0 0 h)"

primrec for_each :: "'a list \<Rightarrow> ('a \<Rightarrow> heap \<Rightarrow> heap result) \<Rightarrow> heap \<Rightarrow> heap result" where
  "for_each [] f h = Inr h"
| "for_each (c # cs) f h = rbind (f c h) (for_each cs f)"

definition set_x :: "heap \<Rightarrow> nat \<Rightarrow> real \<Rightarrow> heap result" where
  "set_x h t v = modify h t (\<lambda>n. n\<lparr>n_x := v, n_xw := Suc (n_xw n)\<rparr>)"

fun secondwalk :: "nat \<Rightarrow> heap \<Rightarrow> nat \<Rightarrow> real \<Rightarrow> heap result" where
  "secondwalk 0 h t modsum = Inl OutOfFuel"
| "secondwalk (Suc n) h t modsum =
     rbind (get h t) (\<lambda>tn.
     let modsum1 = modsum + n_mod tn in
     rbind (get h t) (\<lambda>tn1.
     rbind (set_x h t (n_prelim tn1 + modsum1)) (\<lambda>h1.
     rbind (add_child_spacing h1 t) (\<lambda>h2.
     rbind (get h2 t) (\<lambda>tn2.
     for_each (n_children tn2) (\<lambda>c h'. secondwalk n h' c modsum1) h2)))))"

subsection \<open>Entry point\<close>

definition layout :: "nat \<Rightarrow> heap \<Rightarrow> nat \<Rightarrow> heap result" where
  "layout fuel h t = rbind (firstwalk fuel h t) (\<lambda>h1. secondwalk fuel h1 t 0)"

subsection \<open>Trees in the store\<close>

text \<open>
  The precondition of \<^verbatim>\<open>layout\<close>: the nodes reachable from the root form a tree.
  A \<open>shape\<close> lists the addresses of the nodes of a tree; \<open>is_tree h par s\<close> says that
  the store holds that tree, with consistent \<^verbatim>\<open>parent\<close> links, below the parent
  pointer \<open>par\<close>.
\<close>

datatype shape = Shape (top: nat) (subs: "shape list")

fun addrs :: "shape \<Rightarrow> nat list" where
  "addrs (Shape a ts) = a # concat (map addrs ts)"

fun is_tree :: "heap \<Rightarrow> ptr \<Rightarrow> shape \<Rightarrow> bool" where
  "is_tree h par (Shape a ts) \<longleftrightarrow>
     a < length h \<and> n_parent (h ! a) = par \<and> n_children (h ! a) = map top ts \<and>
     (\<forall>s \<in> set ts. is_tree h (Some a) s)"

text \<open>The neutral initial state of the working fields of the node at address \<open>a\<close>.\<close>

definition neutral :: "node \<Rightarrow> nat \<Rightarrow> bool" where
  "neutral n a \<longleftrightarrow>
     n_prelim n = 0 \<and> n_mod n = 0 \<and> n_shift n = 0 \<and> n_change n = 0 \<and>
     n_tl n = None \<and> n_tr n = None \<and> n_el n = Some a \<and> n_er n = Some a \<and>
     n_msel n = 0 \<and> n_mser n = 0"

definition layout_pre :: "heap \<Rightarrow> shape \<Rightarrow> bool" where
  "layout_pre h s \<longleftrightarrow>
     is_tree h None s \<and> distinct (addrs s) \<and>
     (\<forall>a \<in> set (addrs s). neutral (h ! a) a \<and> 0 \<le> n_w (h ! a) \<and> 0 \<le> n_h (h ! a))"

text \<open>A function of a node that does not depend on the field written by \<open>upd\<close>.\<close>

definition ign :: "(('v \<Rightarrow> 'v) \<Rightarrow> node \<Rightarrow> node) \<Rightarrow> (node \<Rightarrow> 'a) \<Rightarrow> bool" where
  "ign upd g \<longleftrightarrow> (\<forall>f n. g (upd f n) = g n)"

subsection \<open>Properties of a finished layout\<close>

definition y_overlap :: "node \<Rightarrow> node \<Rightarrow> bool" where
  "y_overlap a b \<longleftrightarrow> n_y a < n_y b + n_h b \<and> n_y b < n_y a + n_h a"

definition x_overlap :: "node \<Rightarrow> node \<Rightarrow> bool" where
  "x_overlap a b \<longleftrightarrow> n_x a < n_x b + n_w b \<and> n_x b < n_x a + n_w a"

text \<open>Row spacing at the node at address \<open>a\<close>.\<close>

definition row_ok :: "heap \<Rightarrow> nat \<Rightarrow> bool" where
  "row_ok h a \<longleftrightarrow>
     (case n_parent (h ! a) of
        None \<Rightarrow> n_y (h ! a) = 0
      | Some p \<Rightarrow> n_y (h ! a) = n_y (h ! p) + n_h (h ! p) + V_SPACING)"

subsection \<open>The skip-list insertion as the specification words it\<close>

text \<open>Drop every head entry whose \<open>lowY\<close> is at least the new value, then prepend.\<close>

definition insert_spec :: "IYL list \<Rightarrow> real \<Rightarrow> int \<Rightarrow> IYL list" where
  "insert_spec l newLowY newIndex =
     IYL newLowY newIndex # dropWhile (\<lambda>e. lowY e \<ge> newLowY) l"

subsection \<open>Example stores\<close>

text \<open>A node in its neutral state, at address \<open>a\<close>.\<close>

definition fresh :: "nat list \<Rightarrow> ptr \<Rightarrow> real \<Rightarrow> real \<Rightarrow> nat \<Rightarrow> node" where
  "fresh cs p w h a =
     \<lparr>n_children = cs, n_parent = p, n_x = 0, n_y = 0, n_w = w, n_h = h,
      n_prelim = 0, n_mod = 0, n_shift = 0, n_change = 0, n_tl = None, n_tr = None,
      n_el = Some a, n_er = Some a, n_msel = 0, n_mser = 0, n_xw = 0, n_yw = 0\<rparr>"

text \<open>
  A root (0) with three children: a tall leaf (1), and two short nodes (2, 3) that each
  have one child (4, wide, and 5).
\<close>

definition tall_sibling_heap :: heap where
  "tall_sibling_heap =
     [fresh [1, 2, 3] None 10 10 0, fresh [] (Some 0) 10 100 1, fresh [4] (Some 0) 10 10 2,
      fresh [5] (Some 0) 10 10 3, fresh [] (Some 2) 100 10 4, fresh [] (Some 3) 10 10 5]"

definition tall_sibling_shape :: shape where
  "tall_sibling_shape =
     Shape 0 [Shape 1 [], Shape 2 [Shape 4 []], Shape 3 [Shape 5 []]]"

text \<open>A root (0) with two leaf children (1, 2), after \<^verbatim>\<open>firstwalk\<close> has visited the
  children.\<close>

definition two_leaves_heap :: heap where
  "two_leaves_heap =
     [(fresh [1, 2] None 10 10 0)\<lparr>n_yw := 1\<rparr>,
      (fresh [] (Some 0) 10 10 1)\<lparr>n_y := 30, n_yw := 1\<rparr>,
      (fresh [] (Some 0) 10 10 2)\<lparr>n_y := 30, n_yw := 1\<rparr>]"

text \<open>The state after one iteration of the loop of \<^verbatim>\<open>separate\<close> on
  \<open>two_leaves_heap\<close>, for child 1 against child 0.\<close>

definition two_leaves_step :: sep_state where
  "two_leaves_step =
     \<lparr>st_heap = two_leaves_heap[2 := (two_leaves_heap ! 2)\<lparr>n_mod := 30, n_msel := 30, n_mser := 30\<rparr>],
      st_cursor = [IYL 40 0], st_sr = None, st_cl = None, st_mssr = 0, st_mscl = 30\<rparr>"

text \<open>A function of a node that depends on none of the working fields.\<close>

definition work_ign :: "(node \<Rightarrow> 'a) \<Rightarrow> bool" where
  "work_ign g \<longleftrightarrow>
     ign n_prelim_update g \<and> ign n_mod_update g \<and> ign n_shift_update g \<and>
     ign n_change_update g \<and> ign n_tl_update g \<and> ign n_tr_update g \<and>
     ign n_el_update g \<and> ign n_er_update g \<and> ign n_msel_update g \<and> ign n_mser_update g"

text \<open>The root of \<open>tall_sibling_heap\<close> after a displacement of 30 of its child 2 has
  been spread with \<^verbatim>\<open>distribute_extra\<close> from child 0 on.\<close>

definition spread_heap :: heap where
  "spread_heap =
     tall_sibling_heap[2 := (tall_sibling_heap ! 2)\<lparr>n_shift := 15\<rparr>,
                       3 := (tall_sibling_heap ! 3)\<lparr>n_shift := - 15, n_change := - 15\<rparr>]"

subsection \<open>What a pass does to the rows, the columns and the write counters\<close>

text \<open>The structure and the dimensions of a node: the inputs of the layout.\<close>

definition struct :: "node \<Rightarrow> nat list \<times> ptr \<times> real \<times> real" where
  "struct n = (n_children n, n_parent n, n_w n, n_h n)"

text \<open>
  \<open>visits_y h h' A\<close>: from \<open>h\<close> to \<open>h'\<close> the structure is unchanged, \<^verbatim>\<open>y\<close> has been
  assigned exactly once in each node of \<open>A\<close>, which satisfies the row spacing in \<open>h'\<close>
  (its parent, if any, being a node of the store), and \<^verbatim>\<open>y\<close> has not been assigned
  in any other node.
\<close>

definition visits_y :: "heap \<Rightarrow> heap \<Rightarrow> nat set \<Rightarrow> bool" where
  "visits_y h h' A \<longleftrightarrow>
     map struct h' = map struct h \<and>
     (\<forall>a < length h.
        if a \<in> A
        then n_yw (h' ! a) = Suc (n_yw (h ! a)) \<and> row_ok h' a \<and>
             (\<forall>p. n_parent (h ! a) = Some p \<longrightarrow> p < length h)
        else n_y (h' ! a) = n_y (h ! a) \<and> n_yw (h' ! a) = n_yw (h ! a))"


text \<open>A root (0) with two equal leaf children (1, 2), before the layout.\<close>

definition pair_heap :: heap where
  "pair_heap =
     [fresh [1, 2] None 10 10 0, fresh [] (Some 0) 10 10 1, fresh [] (Some 0) 10 10 2]"

definition pair_shape :: shape where
  "pair_shape = Shape 0 [Shape 1 [], Shape 2 []]"

text \<open>The same store after \<^verbatim>\<open>firstwalk\<close>, and after \<^verbatim>\<open>layout\<close>.\<close>

definition pair_walked :: heap where
  "pair_walked =
     [(fresh [1, 2] None 10 10 0)
        \<lparr>n_prelim := 15, n_el := Some 1, n_er := Some 2, n_mser := 30, n_yw := 1\<rparr>,
      (fresh [] (Some 0) 10 10 1)\<lparr>n_y := 30, n_yw := 1\<rparr>,
      (fresh [] (Some 0) 10 10 2)
        \<lparr>n_y := 30, n_mod := 30, n_msel := 30, n_mser := 30, n_yw := 1\<rparr>]"

definition pair_result :: heap where
  "pair_result =
     [(pair_walked ! 0)\<lparr>n_x := 15, n_xw := 1\<rparr>,
      (pair_walked ! 1)\<lparr>n_x := 0, n_xw := 1\<rparr>,
      (pair_walked ! 2)\<lparr>n_x := 30, n_xw := 1\<rparr>]"

subsection \<open>Stores that differ in the coordinates only\<close>

text \<open>A node with its coordinates and write counters blanked.\<close>

definition core :: "node \<Rightarrow> node" where
  "core n = n\<lparr>n_x := 0, n_y := 0, n_xw := 0, n_yw := 0\<rparr>"

definition same_core :: "node \<Rightarrow> node \<Rightarrow> bool" where
  "same_core n m \<longleftrightarrow> core n = core m"

text \<open>
  The relation kept between two runs of the layout on stores that differ in their
  coordinates only: the nodes have the same core, the rows of the nodes in \<open>V\<close> (those
  already assigned) agree, every thread points into \<open>C\<close> (the nodes of finished
  subtrees), which is closed under \<^verbatim>\<open>children\<close> and contained in \<open>V\<close>.
\<close>

definition agree_y :: "nat set \<Rightarrow> heap \<Rightarrow> heap \<Rightarrow> bool" where
  "agree_y V h g \<longleftrightarrow> (\<forall>a \<in> V. a < length h \<longrightarrow> n_y (h ! a) = n_y (g ! a))"

definition agree_x :: "nat set \<Rightarrow> heap \<Rightarrow> heap \<Rightarrow> bool" where
  "agree_x X h g \<longleftrightarrow> (\<forall>a \<in> X. a < length h \<longrightarrow> n_x (h ! a) = n_x (g ! a))"

definition threads_in :: "nat set \<Rightarrow> heap \<Rightarrow> bool" where
  "threads_in C h \<longleftrightarrow>
     (\<forall>a < length h. (\<forall>b. n_tl (h ! a) = Some b \<longrightarrow> b \<in> C) \<and>
                     (\<forall>b. n_tr (h ! a) = Some b \<longrightarrow> b \<in> C))"

definition child_closed :: "nat set \<Rightarrow> heap \<Rightarrow> bool" where
  "child_closed C h \<longleftrightarrow> (\<forall>a \<in> C. a < length h \<longrightarrow> set (n_children (h ! a)) \<subseteq> C)"

definition sim :: "nat set \<Rightarrow> nat set \<Rightarrow> heap \<Rightarrow> heap \<Rightarrow> bool" where
  "sim V C h g \<longleftrightarrow>
     list_all2 same_core h g \<and> agree_y V h g \<and> threads_in C h \<and> child_closed C h \<and> C \<subseteq> V"

text \<open>Resetting the working fields of every node of the store to their neutral values.\<close>

definition reset :: "heap \<Rightarrow> heap" where
  "reset h = map (\<lambda>(a, n).
       n\<lparr>n_prelim := 0, n_mod := 0, n_shift := 0, n_change := 0, n_tl := None, n_tr := None,
         n_el := Some a, n_er := Some a, n_msel := 0, n_mser := 0\<rparr>) (enumerate 0 h)"

text \<open>The same relation on the states of the loop of \<^verbatim>\<open>separate\<close>: the two runs
  are at the same contour nodes, which belong to \<open>C\<close>.\<close>

definition sim_state :: "nat set \<Rightarrow> nat set \<Rightarrow> sep_state \<Rightarrow> sep_state \<Rightarrow> bool" where
  "sim_state V C st st' \<longleftrightarrow>
     sim V C (st_heap st) (st_heap st') \<and> st_cursor st' = st_cursor st \<and>
     st_sr st' = st_sr st \<and> st_cl st' = st_cl st \<and>
     st_mssr st' = st_mssr st \<and> st_mscl st' = st_mscl st \<and>
     (\<forall>b. st_sr st = Some b \<longrightarrow> b \<in> C) \<and> (\<forall>b. st_cl st = Some b \<longrightarrow> b \<in> C)"

text \<open>
  The relation of the top-down passes of two runs: the same cores, and the same \<open>x\<close> in
  the nodes of \<open>X\<close>.
\<close>

definition simx :: "nat set \<Rightarrow> heap \<Rightarrow> heap \<Rightarrow> bool" where
  "simx X h g \<longleftrightarrow> list_all2 same_core h g \<and> agree_x X h g"

text \<open>The store \<open>spread_heap\<close> after the top-down pass.\<close>

definition spread_walked :: heap where
  "spread_walked = (case secondwalk 3 spread_heap 0 0 of Inr h' \<Rightarrow> h' | Inl e \<Rightarrow> [])"

subsection \<open>Double arithmetic\<close>

text \<open>Rounding a real to the nearest integer, ties to the even one.\<close>

definition rne :: "real \<Rightarrow> int" where
  "rne q = (let f = \<lfloor>q\<rfloor>; r = q - of_int f in
     if r < 1 / 2 then f else if 1 / 2 < r then f + 1 else if even f then f else f + 1)"

text \<open>The binary exponent of a positive real: \<open>2 powi (ilog2 x) \<le> x < 2 powi (ilog2 x + 1)\<close>.\<close>

definition ilog2 :: "real \<Rightarrow> int" where
  "ilog2 x = (if 1 \<le> x then bitlen \<lfloor>x\<rfloor> - 1 else - bitlen (\<lceil>1 / x\<rceil> - 1))"

text \<open>The spacing of the doubles around \<open>x\<close>: 53 significant bits, and never less
  than \<open>2 powi (- 1074)\<close>, the spacing of the subnormal numbers.\<close>

definition ulp :: "real \<Rightarrow> real" where
  "ulp x = 2 powi (max (ilog2 \<bar>x\<bar> - 52) (- 1074))"

text \<open>The double nearest to a real (round to nearest, ties to even), as the additions,
  subtractions and divisions of \<^verbatim>\<open>double\<close> values return it. The reals beyond the
  largest double, which round to an infinity, are outside this model.\<close>

definition dbl :: "real \<Rightarrow> real" where
  "dbl x = (if x = 0 then 0 else of_int (rne (x / ulp x)) * ulp x)"

text \<open>The three sums of modifiers of a node hold doubles.\<close>

definition dbl_node :: "node \<Rightarrow> bool" where
  "dbl_node n \<longleftrightarrow> dbl (n_mod n) = n_mod n \<and> dbl (n_msel n) = n_msel n \<and> dbl (n_mser n) = n_mser n"

text \<open>
  The loop body of \<^verbatim>\<open>separate\<close> and the operations it calls, with the result of every
  arithmetic operation passed through \<open>rnd\<close>, in the order in which the expressions of
  \<^verbatim>\<open>layout.hpp\<close> are evaluated. With \<open>rnd = dbl\<close> these are the statements of the
  program in double arithmetic; with the identity they are the definitions above.
\<close>

definition bottom_fl :: "(real \<Rightarrow> real) \<Rightarrow> heap \<Rightarrow> nat \<Rightarrow> real result" where
  "bottom_fl rnd h t = rbind (get h t) (\<lambda>n. Inr (rnd (n_y n + n_h n)))"

definition advance_fl ::
  "(real \<Rightarrow> real) \<Rightarrow> heap \<Rightarrow> ptr result \<Rightarrow> real \<Rightarrow> (ptr \<times> real) result" where
  "advance_fl rnd h nxt ms = rbind nxt (\<lambda>p. case p of
       None \<Rightarrow> Inr (None, ms)
     | Some a \<Rightarrow> rbind (get h a) (\<lambda>an. Inr (Some a, rnd (ms + n_mod an))))"

definition distribute_extra_fl ::
  "(real \<Rightarrow> real) \<Rightarrow> heap \<Rightarrow> nat \<Rightarrow> int \<Rightarrow> int \<Rightarrow> real \<Rightarrow> heap result" where
  "distribute_extra_fl rnd h t i si dst =
     (if si \<noteq> i - 1 then
        let nr = real_of_int (i - si) in
        rbind (upd_child h t (si + 1) (\<lambda>n. n\<lparr>n_shift := rnd (n_shift n + rnd (dst / nr))\<rparr>)) (\<lambda>h1.
        rbind (upd_child h1 t i (\<lambda>n. n\<lparr>n_shift := rnd (n_shift n - rnd (dst / nr))\<rparr>)) (\<lambda>h2.
        upd_child h2 t i (\<lambda>n. n\<lparr>n_change := rnd (n_change n - rnd (dst - rnd (dst / nr)))\<rparr>)))
      else Inr h)"

definition move_subtree_fl ::
  "(real \<Rightarrow> real) \<Rightarrow> heap \<Rightarrow> nat \<Rightarrow> int \<Rightarrow> int \<Rightarrow> real \<Rightarrow> heap result" where
  "move_subtree_fl rnd h t i si dst =
     rbind (upd_child h t i (\<lambda>n. n\<lparr>n_mod := rnd (n_mod n + dst)\<rparr>)) (\<lambda>h1.
     rbind (upd_child h1 t i (\<lambda>n. n\<lparr>n_msel := rnd (n_msel n + dst)\<rparr>)) (\<lambda>h2.
     rbind (upd_child h2 t i (\<lambda>n. n\<lparr>n_mser := rnd (n_mser n + dst)\<rparr>)) (\<lambda>h3.
     distribute_extra_fl rnd h3 t i si dst)))"

definition separate_step_fl ::
  "(real \<Rightarrow> real) \<Rightarrow> heap \<Rightarrow> nat \<Rightarrow> int \<Rightarrow> IYL list \<Rightarrow> nat \<Rightarrow> nat \<Rightarrow> real \<Rightarrow> real \<Rightarrow>
   sep_state result" where
  "separate_step_fl rnd h t i cursor s c mssr mscl =
     rbind (bottom_fl rnd h s) (\<lambda>bs.
     let cursor' = dropWhile (\<lambda>e. bs > lowY e) cursor in
     rbind (get h s) (\<lambda>sn. rbind (get h c) (\<lambda>cn.
     let dst = rnd (rnd (rnd (rnd (mssr + n_prelim sn) + n_w sn) + H_SPACING)
                 - rnd (mscl + n_prelim cn)) in
     rbind (if dst > 0
            then move_subtree_fl rnd h t i (case cursor' of [] \<Rightarrow> i - 1 | e # _ \<Rightarrow> index e) dst
            else Inr h) (\<lambda>h1.
     let mscl1 = (if dst > 0 then rnd (mscl + dst) else mscl) in
     rbind (bottom_fl rnd h1 s) (\<lambda>sy. rbind (bottom_fl rnd h1 c) (\<lambda>cy.
     rbind (if sy \<le> cy then advance_fl rnd h1 (next_right_contour h1 s) mssr
            else Inr (Some s, mssr)) (\<lambda>(sr', mssr').
     rbind (if sy \<ge> cy then advance_fl rnd h1 (next_left_contour h1 c) mscl1
            else Inr (Some c, mscl1)) (\<lambda>(cl', mscl').
     Inr \<lparr>st_heap = h1, st_cursor = cursor', st_sr = sr', st_cl = cl',
          st_mssr = mssr', st_mscl = mscl'\<rparr>))))))))"

text \<open>
  The store in \<^verbatim>\<open>separate(root, 1, ih)\<close> after the first iteration of its loop, for a root
  with two children: node 1 (\<open>w = h = 10\<close>) with the leaf 3, and node 2 (\<open>w = 2^60\<close>,
  \<open>h = 100\<close>) with the leaf 4 of width 0.
\<close>

definition absorb_heap :: heap where
  "absorb_heap =
     [fresh [1, 2] None 10 10 0,
      (fresh [3] (Some 0) 10 10 1)\<lparr>n_y := 30, n_el := Some 3, n_er := Some 3\<rparr>,
      (fresh [4] (Some 0) (2 ^ 60) 100 2)\<lparr>n_y := 30, n_prelim := - (2 ^ 59), n_mod := 2 ^ 59,
         n_msel := 2 ^ 59, n_mser := 2 ^ 59, n_el := Some 4, n_er := Some 4\<rparr>,
      (fresh [] (Some 1) 10 10 3)\<lparr>n_y := 60\<rparr>,
      (fresh [] (Some 2) 0 10 4)\<lparr>n_y := 150\<rparr>]"

section \<open>Basic facts\<close>

lemma rbind_Inr [simp]: "rbind (Inr v) f = f v"
  by (simp add: rbind_def)

lemma rbind_Inl [simp]: "rbind (Inl e) f = Inl e"
  by (simp add: rbind_def)

lemma rbind_eq_Inr: "rbind m f = Inr r \<longleftrightarrow> (\<exists>v. m = Inr v \<and> f v = Inr r)"
  by (cases m) simp_all

lemma rbind_eq_Inl: "rbind m f = Inl e \<longleftrightarrow> m = Inl e \<or> (\<exists>v. m = Inr v \<and> f v = Inl e)"
  by (cases m) simp_all

lemma rbindE: "rbind m f = Inr r \<Longrightarrow> (\<And>v. m = Inr v \<Longrightarrow> f v = Inr r \<Longrightarrow> P) \<Longrightarrow> P"
  by (auto simp: rbind_eq_Inr)

lemma get_Inr [simp]: "get h a = Inr n \<longleftrightarrow> a < length h \<and> n = h ! a"
  by (auto simp: get_def)

lemma modify_Inr: "modify h a f = Inr h' \<longleftrightarrow> a < length h \<and> h' = h[a := f (h ! a)]"
  by (auto simp: modify_def)

lemma child_Inr: "child h t i = Inr c \<longleftrightarrow>
    t < length h \<and> 0 \<le> i \<and> i < int (length (n_children (h ! t))) \<and>
    c = n_children (h ! t) ! nat i"
  by (auto simp: child_def rbind_eq_Inr)

lemma last_child_Inr: "last_child h t = Inr c \<longleftrightarrow>
    t < length h \<and> n_children (h ! t) \<noteq> [] \<and> c = last (n_children (h ! t))"
  by (auto simp: last_child_def rbind_eq_Inr child_Inr last_conv_nth nat_diff_distrib')

lemma upd_child_Inr: "upd_child h t i f = Inr h' \<longleftrightarrow>
    (\<exists>c. child h t i = Inr c \<and> c < length h \<and> h' = h[c := f (h ! c)])"
  by (auto simp: upd_child_def rbind_eq_Inr modify_Inr)

lemma bottom_Inr: "bottom h t = Inr b \<longleftrightarrow> t < length h \<and> b = n_y (h ! t) + n_h (h ! t)"
  by (auto simp: bottom_def rbind_eq_Inr)

subsection \<open>Frames: what an operation leaves alone\<close>

lemma map_eq_nth: "map g h' = map g h \<Longrightarrow> a < length h \<Longrightarrow> g (h' ! a) = g (h ! a)"
  by (metis length_map nth_map)

lemma map_eq_length: "map g h' = map g h \<Longrightarrow> length h' = length h"
  by (rule map_eq_imp_length_eq)

lemma update_frame: "g v = g (h ! a) \<Longrightarrow> map g (h[a := v]) = map g h"
  by (cases "a < length h") (simp_all add: map_update list_update_same_conv list_update_beyond)

lemma modify_frame: "modify h a f = Inr h' \<Longrightarrow> (\<And>n. g (f n) = g n) \<Longrightarrow> map g h' = map g h"
  by (auto simp: modify_Inr update_frame)

lemma upd_child_frame:
  "upd_child h t i f = Inr h' \<Longrightarrow> (\<And>n. g (f n) = g n) \<Longrightarrow> map g h' = map g h"
  by (auto simp: upd_child_Inr update_frame)

lemma child_cong:
  assumes "map n_children h' = map n_children h"
  shows "child h' t i = child h t i"
proof -
  have l: "length h' = length h" using assms by (rule map_eq_length)
  have "t < length h \<Longrightarrow> n_children (h' ! t) = n_children (h ! t)"
    using assms by (rule map_eq_nth)
  with l show ?thesis by (simp add: child_def get_def)
qed

lemma distribute_extra_frame:
  assumes "distribute_extra h t i si d = Inr h'"
    and "ign n_shift_update g" "ign n_change_update g"
  shows "map g h' = map g h"
  using assms
  by (auto simp: distribute_extra_def Let_def ign_def rbind_eq_Inr split: if_splits
      dest!: upd_child_frame[where g = g])

lemma move_subtree_frame:
  assumes "move_subtree h t i si d = Inr h'"
    and "ign n_mod_update g" "ign n_msel_update g" "ign n_mser_update g"
    and "ign n_shift_update g" "ign n_change_update g"
  shows "map g h' = map g h"
  using assms
  by (auto simp: move_subtree_def ign_def[of n_mod_update] ign_def[of n_msel_update]
      ign_def[of n_mser_update] rbind_eq_Inr
      dest!: upd_child_frame[where g = g] distribute_extra_frame[where g = g])

lemma move_subtree_mod:
  assumes "move_subtree h t i si d = Inr h'" and "child h t i = Inr c"
  shows "n_mod (h' ! c) = n_mod (h ! c) + d \<and> n_msel (h' ! c) = n_msel (h ! c) + d \<and>
         n_mser (h' ! c) = n_mser (h ! c) + d"
proof -
  from assms(1) obtain h1 h2 h3 where
    1: "upd_child h t i (\<lambda>n. n\<lparr>n_mod := n_mod n + d\<rparr>) = Inr h1" and
    2: "upd_child h1 t i (\<lambda>n. n\<lparr>n_msel := n_msel n + d\<rparr>) = Inr h2" and
    3: "upd_child h2 t i (\<lambda>n. n\<lparr>n_mser := n_mser n + d\<rparr>) = Inr h3" and
    4: "distribute_extra h3 t i si d = Inr h'"
    by (auto simp: move_subtree_def rbind_eq_Inr)
  have c1: "child h1 t i = Inr c"
    using child_cong[OF upd_child_frame[OF 1, of n_children], of t i] assms(2) by simp
  have c2: "child h2 t i = Inr c"
    using child_cong[OF upd_child_frame[OF 2, of n_children], of t i] c1 by simp
  have l: "c < length h" using 1 assms(2) by (auto simp: upd_child_Inr)
  have h1: "h1 = h[c := (h ! c)\<lparr>n_mod := n_mod (h ! c) + d\<rparr>]"
    using 1 assms(2) by (auto simp: upd_child_Inr)
  have h2: "h2 = h1[c := (h1 ! c)\<lparr>n_msel := n_msel (h1 ! c) + d\<rparr>]"
    using 2 c1 by (auto simp: upd_child_Inr)
  have h3: "h3 = h2[c := (h2 ! c)\<lparr>n_mser := n_mser (h2 ! c) + d\<rparr>]"
    using 3 c2 by (auto simp: upd_child_Inr)
  have e: "n_mod (h3 ! c) = n_mod (h ! c) + d \<and> n_msel (h3 ! c) = n_msel (h ! c) + d \<and>
           n_mser (h3 ! c) = n_mser (h ! c) + d"
    using l by (simp add: h1 h2 h3)
  have l3: "c < length h3" using l by (simp add: h1 h2 h3)
  have "n_mod (h' ! c) = n_mod (h3 ! c)" "n_msel (h' ! c) = n_msel (h3 ! c)"
    "n_mser (h' ! c) = n_mser (h3 ! c)"
    using distribute_extra_frame[OF 4, of n_mod] distribute_extra_frame[OF 4, of n_msel]
      distribute_extra_frame[OF 4, of n_mser] l3
    by (auto simp: ign_def dest: map_eq_nth)
  with e show ?thesis by simp
qed

section \<open>The ancestor-skip list\<close>

lemma dropWhile_sorted_gt:
  "sorted_wrt (<) (map lowY l) \<Longrightarrow> \<forall>e \<in> set (dropWhile (\<lambda>e. lowY e \<le> m) l). m < lowY e"
  by (induction l) auto

lemma dropWhile_sorted_lowY:
  "sorted_wrt (<) (map lowY l) \<Longrightarrow> sorted_wrt (<) (map lowY (dropWhile (\<lambda>e. lowY e \<le> m) l))"
  by (induction l) auto

text \<open>
  C3 (as the specification states it): insertion drops the head entries whose \<open>lowY\<close> is
  greater than or equal to the new value, and the list is strictly decreasing afterwards.
  The code does the opposite: inserting \<open>lowY = 3\<close> into a list holding \<open>lowY = 5\<close> keeps
  that entry, and the result, 3 then 5, is not decreasing.
\<close>

theorem updateIYL_not_insert_spec:
  "updateIYL 3 1 [IYL 5 0] \<noteq> insert_spec [IYL 5 0] 3 1 \<and>
   \<not> sorted_wrt (>) (map lowY (updateIYL 3 1 [IYL 5 0]))"
  by (simp add: updateIYL_def insert_spec_def)

text \<open>
  C3 (amended): \<^verbatim>\<open>updateIYL\<close> drops every head entry whose \<open>lowY\<close> is less than or
  equal to the new value and then prepends the new entry; if the \<open>lowY\<close> values of the
  list were strictly increasing in traversal order, they are so after the insertion.
\<close>

theorem updateIYL_increasing:
  "updateIYL miny i l = IYL miny i # dropWhile (\<lambda>e. lowY e \<le> miny) l \<and>
   (sorted_wrt (<) (map lowY l) \<longrightarrow> sorted_wrt (<) (map lowY (updateIYL miny i l)))"
proof -
  have a: "updateIYL miny i l = IYL miny i # dropWhile (\<lambda>e. lowY e \<le> miny) l"
    by (simp add: updateIYL_def)
  with dropWhile_sorted_gt[of l miny] dropWhile_sorted_lowY[of l miny] show ?thesis
    by auto
qed

theorem updateIYL_increasing_witness:
  "sorted_wrt (<) (map lowY [IYL 5 0, IYL 7 1]) \<and>
   updateIYL 6 2 [IYL 5 0, IYL 7 1] = [IYL 6 2, IYL 7 1] \<and>
   sorted_wrt (<) (map lowY (updateIYL 6 2 [IYL 5 0, IYL 7 1]))"
  using updateIYL_increasing[of 6 2 "[IYL 5 0, IYL 7 1]"] by simp

section \<open>Moving a subtree\<close>

text \<open>
  C6: on a parent \<open>t\<close> whose children are distinct nodes of the store, and for indices
  \<open>0 \<le> si < i\<close> with \<open>i\<close> in range, \<^verbatim>\<open>move_subtree\<close> adds \<open>d\<close> to the \<open>mod\<close>, \<open>msel\<close>
  and \<open>mser\<close> of child \<open>i\<close> and then runs \<^verbatim>\<open>distribute_extra\<close>; that does nothing when
  \<open>si = i - 1\<close>, and otherwise adds \<open>d / (i - si)\<close> to the \<open>shift\<close> of child \<open>si + 1\<close>,
  subtracts it from the \<open>shift\<close> of child \<open>i\<close> and subtracts \<open>d - d / (i - si)\<close> from the
  \<open>change\<close> of child \<open>i\<close>.
\<close>

theorem move_subtree_effect:
  assumes "t < length h" "0 \<le> si" "si < i" "i < int (length (n_children (h ! t)))"
    and "distinct (n_children (h ! t))" "\<forall>a \<in> set (n_children (h ! t)). a < length h"
  defines "c \<equiv> n_children (h ! t) ! nat i" and "f \<equiv> n_children (h ! t) ! nat (si + 1)"
  shows "move_subtree h t i si d =
           distribute_extra
             (h[c := (h ! c)\<lparr>n_mod := n_mod (h ! c) + d, n_msel := n_msel (h ! c) + d,
                             n_mser := n_mser (h ! c) + d\<rparr>]) t i si d
       \<and> (si = i - 1 \<longrightarrow> distribute_extra h t i si d = Inr h)
       \<and> (si \<noteq> i - 1 \<longrightarrow> distribute_extra h t i si d =
            Inr (h[f := (h ! f)\<lparr>n_shift := n_shift (h ! f) + d / real_of_int (i - si)\<rparr>,
                   c := (h ! c)\<lparr>n_shift := n_shift (h ! c) - d / real_of_int (i - si),
                               n_change := n_change (h ! c) - (d - d / real_of_int (i - si))\<rparr>]))"
proof -
  have cl: "c < length h" and fl: "f < length h"
    using assms by (auto simp: c_def f_def)
  have ne: "si \<noteq> i - 1 \<Longrightarrow> f \<noteq> c"
    using assms(2-5) by (auto simp: c_def f_def nth_eq_iff_index_eq)
  have uc: "\<And>h' g. length h' = length h \<Longrightarrow> n_children (h' ! t) = n_children (h ! t) \<Longrightarrow>
        upd_child h' t i g = Inr (h'[c := g (h' ! c)])"
    using assms(1-4) cl by (auto simp: upd_child_def child_def modify_def get_def c_def)
  have uf: "\<And>h' g. length h' = length h \<Longrightarrow> n_children (h' ! t) = n_children (h ! t) \<Longrightarrow>
        upd_child h' t (si + 1) g = Inr (h'[f := g (h' ! f)])"
    using assms(1-4) fl by (auto simp: upd_child_def child_def modify_def get_def f_def)
  have ch: "\<And>h' a g. length h' = length h \<Longrightarrow> n_children (h' ! t) = n_children (h ! t) \<Longrightarrow>
       a < length h \<Longrightarrow> n_children (g (h' ! a)) = n_children (h' ! a) \<Longrightarrow>
       n_children (h'[a := g (h' ! a)] ! t) = n_children (h ! t)"
    using assms(1) by (auto simp: nth_list_update)
  show ?thesis
    apply (intro conjI impI)
    subgoal
      using cl assms(1) by (simp add: move_subtree_def uc ch nth_list_update)
    subgoal by (simp add: distribute_extra_def)
    subgoal
      using cl fl ne assms(1)
      by (simp add: distribute_extra_def uc uf ch nth_list_update Let_def)
    done
qed

theorem move_subtree_effect_witness:
  "distinct (n_children (tall_sibling_heap ! 0)) \<and>
   move_subtree tall_sibling_heap 0 2 0 30 =
     distribute_extra (tall_sibling_heap[3 := (tall_sibling_heap ! 3)\<lparr>n_mod := 30, n_msel := 30, n_mser := 30\<rparr>]) 0 2 0 30 \<and>
   distribute_extra tall_sibling_heap 0 2 0 30 =
     Inr (tall_sibling_heap[2 := (tall_sibling_heap ! 2)\<lparr>n_shift := 15\<rparr>,
                            3 := (tall_sibling_heap ! 3)\<lparr>n_shift := - 15, n_change := - 15\<rparr>])"
proof -
  have a: "0 < length tall_sibling_heap" "(0::int) \<le> 0" "(0::int) < 2"
    "2 < int (length (n_children (tall_sibling_heap ! 0)))"
    "distinct (n_children (tall_sibling_heap ! 0))"
    "\<forall>a \<in> set (n_children (tall_sibling_heap ! 0)). a < length tall_sibling_heap"
    by (simp_all add: tall_sibling_heap_def fresh_def)
  show ?thesis
    using move_subtree_effect[OF a, of 30] a(5)
    by (simp add: tall_sibling_heap_def fresh_def)
qed

lemma advance_Inr:
  "advance h nxt ms = Inr (p, ms') \<longleftrightarrow>
     nxt = Inr p \<and> (case p of None \<Rightarrow> ms' = ms | Some a \<Rightarrow> a < length h \<and> ms' = ms + n_mod (h ! a))"
  by (cases nxt; cases p) (auto simp: advance_def rbind_eq_Inr split: option.splits)

lemma separate_step_cases:
  assumes "separate_step h t i cursor s c mssr mscl = Inr st"
  defines "dst \<equiv> (mssr + n_prelim (h ! s) + n_w (h ! s) + H_SPACING) - (mscl + n_prelim (h ! c))"
    and "cur \<equiv> dropWhile (\<lambda>e. n_y (h ! s) + n_h (h ! s) > lowY e) cursor"
  defines "h1 \<equiv> st_heap st"
  shows "s < length h" "c < length h" "st_cursor st = cur"
    "(if dst > 0 then move_subtree h t i (case cur of [] \<Rightarrow> i - 1 | e # _ \<Rightarrow> index e) dst else Inr h) = Inr h1"
    "(if n_y (h1 ! s) + n_h (h1 ! s) \<le> n_y (h1 ! c) + n_h (h1 ! c)
      then advance h1 (next_right_contour h1 s) mssr else Inr (Some s, mssr)) = Inr (st_sr st, st_mssr st)"
    "(if n_y (h1 ! s) + n_h (h1 ! s) \<ge> n_y (h1 ! c) + n_h (h1 ! c)
      then advance h1 (next_left_contour h1 c) (if dst > 0 then mscl + dst else mscl)
      else Inr (Some c, if dst > 0 then mscl + dst else mscl)) = Inr (st_cl st, st_mscl st)"
  using assms(1) unfolding dst_def cur_def h1_def
  by (auto simp: separate_step_def rbind_eq_Inr bottom_Inr Let_def split: prod.splits)

lemma separate_step_frame:
  assumes "separate_step h t i cursor s c mssr mscl = Inr st"
    and "ign n_mod_update g" "ign n_msel_update g" "ign n_mser_update g"
    and "ign n_shift_update g" "ign n_change_update g"
  shows "map g (st_heap st) = map g h"
  using separate_step_cases(4)[OF assms(1)] move_subtree_frame[where g = g] assms(2-)
  by (auto split: if_splits)

text \<open>
  C5: one iteration of the lock-step contour walk of \<^verbatim>\<open>separate\<close>. With
  \<open>dst = (mssr + sr.prelim + sr.w + H_SPACING) - (mscl + cl.prelim)\<close>, the store changes
  by \<^verbatim>\<open>move_subtree\<close> with exactly \<open>dst\<close> when \<open>dst\<close> is positive and not at all
  otherwise; the right contour advances exactly when \<open>bottom sr \<le> bottom cl\<close>, the left
  contour exactly when \<open>bottom sr \<ge> bottom cl\<close> (both when tied), and the \<open>mod\<close> of each
  node newly reached is added to the running sum of its contour.
\<close>

theorem separate_step_walk:
  assumes "separate_step h t i cursor s c mssr mscl = Inr st"
  defines "dst \<equiv> (mssr + n_prelim (h ! s) + n_w (h ! s) + H_SPACING) - (mscl + n_prelim (h ! c))"
    and "sy \<equiv> n_y (h ! s) + n_h (h ! s)" and "cy \<equiv> n_y (h ! c) + n_h (h ! c)"
    and "nmod \<equiv> (\<lambda>p. case p of None \<Rightarrow> 0 | Some a \<Rightarrow> n_mod (st_heap st ! a))"
  shows "(0 < dst \<longrightarrow> (\<exists>si. move_subtree h t i si dst = Inr (st_heap st)))
       \<and> (\<not> 0 < dst \<longrightarrow> st_heap st = h)
       \<and> (sy \<le> cy \<longrightarrow> next_right_contour (st_heap st) s = Inr (st_sr st)
                        \<and> st_mssr st = mssr + nmod (st_sr st))
       \<and> (\<not> sy \<le> cy \<longrightarrow> st_sr st = Some s \<and> st_mssr st = mssr)
       \<and> (cy \<le> sy \<longrightarrow> next_left_contour (st_heap st) c = Inr (st_cl st)
                        \<and> st_mscl st = mscl + max dst 0 + nmod (st_cl st))
       \<and> (\<not> cy \<le> sy \<longrightarrow> st_cl st = Some c \<and> st_mscl st = mscl + max dst 0)"
proof -
  note c = separate_step_cases[OF assms(1)]
  have f: "map (\<lambda>n. n_y n + n_h n) (st_heap st) = map (\<lambda>n. n_y n + n_h n) h"
    by (rule separate_step_frame[OF assms(1)]) (simp_all add: ign_def)
  have sy: "n_y (st_heap st ! s) + n_h (st_heap st ! s) = sy"
    using map_eq_nth[OF f c(1)] by (simp add: sy_def)
  have cy: "n_y (st_heap st ! c) + n_h (st_heap st ! c) = cy"
    using map_eq_nth[OF f c(2)] by (simp add: cy_def)
  have m: "(if 0 < dst then mscl + dst else mscl) = mscl + max dst 0"
    by simp
  have 1: "0 < dst \<longrightarrow> (\<exists>si. move_subtree h t i si dst = Inr (st_heap st))"
    using c(4) by (auto simp: dst_def)
  have 2: "\<not> 0 < dst \<longrightarrow> st_heap st = h"
    using c(4) by (auto simp: dst_def)
  have 3: "sy \<le> cy \<longrightarrow> next_right_contour (st_heap st) s = Inr (st_sr st)
                        \<and> st_mssr st = mssr + nmod (st_sr st)"
    using c(5) unfolding sy cy by (auto simp: advance_Inr nmod_def split: option.splits)
  have 4: "\<not> sy \<le> cy \<longrightarrow> st_sr st = Some s \<and> st_mssr st = mssr"
    using c(5) unfolding sy cy by auto
  have 5: "cy \<le> sy \<longrightarrow> next_left_contour (st_heap st) c = Inr (st_cl st)
                        \<and> st_mscl st = mscl + max dst 0 + nmod (st_cl st)"
    using c(6) unfolding sy cy dst_def[symmetric] m
    by (auto simp: advance_Inr nmod_def split: option.splits)
  have 6: "\<not> cy \<le> sy \<longrightarrow> st_cl st = Some c \<and> st_mscl st = mscl + max dst 0"
    using c(6) unfolding sy cy dst_def[symmetric] m by auto
  from 1 2 3 4 5 6 show ?thesis by blast
qed

lemma two_leaves_step_eq:
  "separate_step two_leaves_heap 0 1 [IYL 40 0] 1 2 0 0 = Inr two_leaves_step"
  by code_simp

theorem separate_step_walk_witness:
  "separate_step two_leaves_heap 0 1 [IYL 40 0] 1 2 0 0 = Inr two_leaves_step \<and>
   (\<exists>si. move_subtree two_leaves_heap 0 1 si 30 = Inr (st_heap two_leaves_step)) \<and>
   next_right_contour (st_heap two_leaves_step) 1 = Inr (st_sr two_leaves_step) \<and>
   next_left_contour (st_heap two_leaves_step) 2 = Inr (st_cl two_leaves_step) \<and>
   st_mssr two_leaves_step = 0 \<and> st_mscl two_leaves_step = 30"
  using separate_step_walk[OF two_leaves_step_eq] two_leaves_step_eq
  by (simp add: two_leaves_heap_def two_leaves_step_def fresh_def H_SPACING_def)

section \<open>The layout of the example with a tall first sibling\<close>

lemma tall_sibling_pre: "layout_pre tall_sibling_heap tall_sibling_shape"
  by code_simp

text \<open>
  C1: on the tree \<open>tall_sibling_shape\<close>, which satisfies the precondition of
  \<^verbatim>\<open>layout\<close>, the nodes 4 and 5 end up in the same row (\<open>y = 60\<close>, height 10) with
  overlapping horizontal extents: node 4 covers \<open>[52.5, 152.5]\<close> and node 5 starts at
  150. They are the lowest nodes of the sibling subtrees of nodes 2 and 3, so the contours
  of these two subtrees are not \<open>H_SPACING\<close> apart either. The skip list holds
  \<open>bottom\<close> of each child itself, not of the lowest node of its subtree, so the lookup
  attributes the second conflict of subtree 3 (with node 4, in subtree 2) to child 0, and
  \<^verbatim>\<open>distribute_extra\<close> later shifts subtree 2 to the right, into subtree 3.
\<close>

theorem layout_overlap:
  "case layout 10 tall_sibling_heap 0 of
     Inl e \<Rightarrow> False
   | Inr h' \<Rightarrow> n_x (h' ! 4) = 105 / 2 \<and> n_x (h' ! 5) = 150 \<and>
              y_overlap (h' ! 4) (h' ! 5) \<and> x_overlap (h' ! 4) (h' ! 5) \<and>
              \<not> n_x (h' ! 4) + n_w (h' ! 4) + H_SPACING \<le> n_x (h' ! 5)"
  by code_simp

text \<open>
  C4 (as the specification states it): after \<^verbatim>\<open>add_child_spacing\<close> has run on the
  parent, the \<open>shift\<close> and \<open>change\<close> of a node are back at 0. On the same tree, after
  the bottom-up pass and \<^verbatim>\<open>add_child_spacing\<close> on the root, and also at the end of
  \<^verbatim>\<open>layout\<close>, child 2 still has \<open>shift = 22.5\<close> and child 3 has
  \<open>shift = change = -22.5\<close>.
\<close>

theorem shift_change_not_reset:
  "(case firstwalk 10 tall_sibling_heap 0 of
      Inl e \<Rightarrow> False
    | Inr h1 \<Rightarrow>
        (case add_child_spacing h1 0 of
           Inl e \<Rightarrow> False
         | Inr h2 \<Rightarrow> n_shift (h2 ! 2) = 45 / 2 \<and> n_shift (h2 ! 3) = - 45 / 2 \<and>
                     n_change (h2 ! 3) = - 45 / 2)) \<and>
   (case layout 10 tall_sibling_heap 0 of
      Inl e \<Rightarrow> False
    | Inr h' \<Rightarrow> n_shift (h' ! 2) = 45 / 2 \<and> n_shift (h' ! 3) = - 45 / 2 \<and>
                n_change (h' ! 3) = - 45 / 2)"
  by code_simp

section \<open>Frames of the remaining operations\<close>

lemma ignD: "ign u g \<Longrightarrow> g (u f n) = g n"
  by (simp add: ign_def)

lemma set_extremes_frame:
  assumes "set_extremes h t = Inr h'"
    and "ign n_el_update g" "ign n_er_update g" "ign n_msel_update g" "ign n_mser_update g"
  shows "map g h' = map g h"
  using assms(1)
  by (auto simp: set_extremes_def rbind_eq_Inr ignD[OF assms(2)] ignD[OF assms(3)]
      ignD[OF assms(4)] ignD[OF assms(5)] split: if_splits
      dest!: modify_frame[where g = g])

lemma set_left_thread_frame:
  assumes "set_left_thread h t i cl m = Inr h'"
    and "ign n_tl_update g" "ign n_mod_update g" "ign n_prelim_update g"
    and "ign n_el_update g" "ign n_msel_update g"
  shows "map g h' = map g h"
  using assms(1)
  by (auto simp: set_left_thread_def rbind_eq_Inr Let_def ignD[OF assms(2)] ignD[OF assms(3)]
      ignD[OF assms(4)] ignD[OF assms(5)] ignD[OF assms(6)]
      dest!: modify_frame[where g = g] upd_child_frame[where g = g])

lemma set_right_thread_frame:
  assumes "set_right_thread h t i sr m = Inr h'"
    and "ign n_tr_update g" "ign n_mod_update g" "ign n_prelim_update g"
    and "ign n_er_update g" "ign n_mser_update g"
  shows "map g h' = map g h"
  using assms(1)
  by (auto simp: set_right_thread_def rbind_eq_Inr Let_def ignD[OF assms(2)] ignD[OF assms(3)]
      ignD[OF assms(4)] ignD[OF assms(5)] ignD[OF assms(6)]
      dest!: modify_frame[where g = g] upd_child_frame[where g = g])

lemma position_root_frame:
  assumes "position_root h t = Inr h'" and "ign n_prelim_update g"
  shows "map g h' = map g h"
  using assms(1)
  by (auto simp: position_root_def rbind_eq_Inr ignD[OF assms(2)] dest!: modify_frame[where g = g])

lemma separate_loop_frame:
  assumes "separate_loop fuel t i st = Inr st'"
    and "ign n_mod_update g" "ign n_msel_update g" "ign n_mser_update g"
    and "ign n_shift_update g" "ign n_change_update g"
  shows "map g (st_heap st') = map g (st_heap st)"
  using assms(1)
proof (induction fuel arbitrary: st)
  case 0
  then show ?case by (auto split: option.splits)
next
  case (Suc n)
  show ?case
  proof (cases "st_sr st")
    case None
    with Suc.prems show ?thesis by simp
  next
    case (Some s)
    note s = this
    show ?thesis
    proof (cases "st_cl st")
      case None
      with s Suc.prems show ?thesis by simp
    next
      case (Some c)
      with s Suc.prems obtain st1 where
        1: "separate_step (st_heap st) t i (st_cursor st) s c (st_mssr st) (st_mscl st) = Inr st1"
        and 2: "separate_loop n t i st1 = Inr st'"
        by (auto simp: rbind_eq_Inr)
      from separate_step_frame[OF 1 assms(2-)] Suc.IH[OF 2] show ?thesis by simp
    qed
  qed
qed

lemma separate_frame:
  assumes "separate fuel h t i ih = Inr h'" and "work_ign g"
  shows "map g h' = map g h"
proof -
  from assms(2) have w: "ign n_prelim_update g" "ign n_mod_update g" "ign n_shift_update g"
     "ign n_change_update g" "ign n_tl_update g" "ign n_tr_update g"
     "ign n_el_update g" "ign n_er_update g" "ign n_msel_update g" "ign n_mser_update g"
    by (simp_all add: work_ign_def)
  from assms(1) obtain st0 st where
    l: "separate_loop fuel t i st0 = Inr st" and h0: "st_heap st0 = h" and
    f: "(case (st_sr st, st_cl st) of
           (None, Some c) \<Rightarrow> set_left_thread (st_heap st) t i c (st_mscl st)
         | (Some s, None) \<Rightarrow> set_right_thread (st_heap st) t i s (st_mssr st)
         | _ \<Rightarrow> Inr (st_heap st)) = Inr h'"
    by (auto simp: separate_def rbind_eq_Inr)
  have a: "map g (st_heap st) = map g h"
    using separate_loop_frame[OF l w(2) w(9) w(10) w(3) w(4)] h0 by simp
  have "map g h' = map g (st_heap st)"
    using f set_left_thread_frame[where g = g, OF _ w(5) w(2) w(1) w(7) w(9)]
      set_right_thread_frame[where g = g, OF _ w(6) w(2) w(1) w(8) w(10)]
    by (auto split: option.splits)
  with a show ?thesis by simp
qed

lemma set_y_frame:
  "set_y h t v = Inr h' \<Longrightarrow> ign n_y_update g \<Longrightarrow> ign n_yw_update g \<Longrightarrow> map g h' = map g h"
  by (auto simp: set_y_def ign_def dest!: modify_frame[where g = g])

lemma set_x_frame:
  "set_x h t v = Inr h' \<Longrightarrow> ign n_x_update g \<Longrightarrow> ign n_xw_update g \<Longrightarrow> map g h' = map g h"
  by (auto simp: set_x_def ign_def dest!: modify_frame[where g = g])

lemma assign_y_frame:
  "assign_y h t = Inr h' \<Longrightarrow> ign n_y_update g \<Longrightarrow> ign n_yw_update g \<Longrightarrow> map g h' = map g h"
  by (auto simp: assign_y_def rbind_eq_Inr split: option.splits dest: set_y_frame)

lemma firstwalk_frame_aux:
  assumes "work_ign g" "ign n_y_update g" "ign n_yw_update g"
  shows "(\<forall>h t h'. firstwalk n h t = Inr h' \<longrightarrow> map g h' = map g h) \<and>
         (\<forall>h t i ih h'. firstwalk_loop n h t i ih = Inr h' \<longrightarrow> map g h' = map g h)"
proof (induction n)
  case 0
  show ?case by simp
next
  case (Suc n)
  from assms(1) have w: "ign n_prelim_update g" 
     "ign n_el_update g" "ign n_er_update g" "ign n_msel_update g" "ign n_mser_update g"
    by (simp_all add: work_ign_def)
  note sy = assign_y_frame[where g = g, OF _ assms(2,3)]
  note se = set_extremes_frame[where g = g, OF _ w(2-5)]
  note pr = position_root_frame[where g = g, OF _ w(1)]
  note sp = separate_frame[where g = g, OF _ assms(1)]
  from Suc have fw: "\<And>h t h'. firstwalk n h t = Inr h' \<Longrightarrow> map g h' = map g h"
    and fl: "\<And>h t i ih h'. firstwalk_loop n h t i ih = Inr h' \<Longrightarrow> map g h' = map g h"
    by blast+
  have 1: "map g h' = map g h" if "firstwalk (Suc n) h t = Inr h'" for h t h'
    using that
    by (auto simp: rbind_eq_Inr split: option.splits if_splits dest!: sy se pr fw fl)
  have 2: "map g h' = map g h" if "firstwalk_loop (Suc n) h t i ih = Inr h'" for h t i ih h'
    using that
    by (auto simp: rbind_eq_Inr split: if_splits dest!: sp fw fl)
  from 1 2 show ?case by blast
qed

lemma firstwalk_frame:
  "firstwalk n h t = Inr h' \<Longrightarrow> work_ign g \<Longrightarrow> ign n_y_update g \<Longrightarrow> ign n_yw_update g \<Longrightarrow>
   map g h' = map g h"
  using firstwalk_frame_aux[of g n] by blast

lemma firstwalk_loop_frame:
  "firstwalk_loop n h t i ih = Inr h' \<Longrightarrow> work_ign g \<Longrightarrow> ign n_y_update g \<Longrightarrow>
   ign n_yw_update g \<Longrightarrow> map g h' = map g h"
  using firstwalk_frame_aux[of g n] by blast

lemma add_child_spacing_loop_frame:
  "add_child_spacing_loop t is d m h = Inr h' \<Longrightarrow> ign n_mod_update g \<Longrightarrow> map g h' = map g h"
proof (induction "is" arbitrary: d m h)
  case Nil
  then show ?case by simp
next
  case (Cons i "is")
  from Cons.prems(1) obtain h1 d1 m1 where
    1: "upd_child h t i (\<lambda>n. n\<lparr>n_mod := n_mod n + m1\<rparr>) = Inr h1" and
    2: "add_child_spacing_loop t is d1 m1 h1 = Inr h'"
    by (auto simp: rbind_eq_Inr Let_def)
  from upd_child_frame[OF 1, of g] Cons.prems(2) have "map g h1 = map g h"
    by (simp add: ign_def)
  with Cons.IH[OF 2 Cons.prems(2)] show ?case by simp
qed

lemma add_child_spacing_frame:
  "add_child_spacing h t = Inr h' \<Longrightarrow> ign n_mod_update g \<Longrightarrow> map g h' = map g h"
  by (auto simp: add_child_spacing_def rbind_eq_Inr dest: add_child_spacing_loop_frame)

lemma for_each_frame:
  assumes "for_each cs f h = Inr h'"
    and "\<And>c h1 h2. f c h1 = Inr h2 \<Longrightarrow> map g h2 = map g h1"
  shows "map g h' = map g h"
  using assms(1)
proof (induction cs arbitrary: h)
  case Nil
  then show ?case by simp
next
  case (Cons c cs)
  then obtain h1 where 1: "f c h = Inr h1" and 2: "for_each cs f h1 = Inr h'"
    by (auto simp: rbind_eq_Inr)
  from assms(2)[OF 1] Cons.IH[OF 2] show ?case by simp
qed

lemma secondwalk_frame:
  assumes "ign n_mod_update g" "ign n_x_update g" "ign n_xw_update g"
  shows "secondwalk n h t m = Inr h' \<Longrightarrow> map g h' = map g h"
proof (induction n arbitrary: h t m h')
  case 0
  then show ?case by simp
next
  case (Suc n)
  from Suc.prems obtain h1 h2 m1 where
    1: "set_x h t (n_prelim (h ! t) + m1) = Inr h1" and
    2: "add_child_spacing h1 t = Inr h2" and
    3: "for_each (n_children (h2 ! t)) (\<lambda>c h'. secondwalk n h' c m1) h2 = Inr h'"
    by (auto simp: rbind_eq_Inr Let_def)
  have "map g h' = map g h2"
    using 3 by (rule for_each_frame) (rule Suc.IH)
  with set_x_frame[OF 1 assms(2,3)] add_child_spacing_frame[OF 2 assms(1)]
  show ?case by simp
qed

section \<open>Folding shift and change into mod\<close>

lemma add_child_spacing_loop_other:
  assumes "add_child_spacing_loop t is d m h = Inr h'" "t < length h"
    and "\<forall>i \<in> set is. n_children (h ! t) ! nat i \<noteq> a"
  shows "h' ! a = h ! a"
  using assms
proof (induction "is" arbitrary: d m h)
  case Nil
  then show ?case by simp
next
  case (Cons i "is")
  from Cons.prems(1) obtain h1 d1 m1 where
    1: "upd_child h t i (\<lambda>n. n\<lparr>n_mod := n_mod n + m1\<rparr>) = Inr h1" and
    2: "add_child_spacing_loop t is d1 m1 h1 = Inr h'"
    by (auto simp: rbind_eq_Inr Let_def)
  from 1 Cons.prems(3) obtain c where c: "c \<noteq> a" "c < length h"
    "h1 = h[c := (h ! c)\<lparr>n_mod := n_mod (h ! c) + m1\<rparr>]"
    by (auto simp: upd_child_Inr child_Inr)
  have cs1: "n_children (h1 ! t) = n_children (h ! t)"
    using Cons.prems(2) c(2) by (simp add: c(3) nth_list_update)
  have "h' ! a = h1 ! a"
    using Cons.IH[OF 2] Cons.prems(2,3) cs1 by (simp add: c(3))
  with c show ?case by simp
qed

lemma add_child_spacing_loop_mod:
  assumes "add_child_spacing_loop t (map int [i ..< n]) d m h = Inr h'"
    and "n = length (n_children (h ! t))" "distinct (n_children (h ! t))" "t < length h"
  shows "\<forall>k. i \<le> k \<and> k < n \<longrightarrow>
           n_mod (h' ! (n_children (h ! t) ! k)) =
             n_mod (h ! (n_children (h ! t) ! k)) + m +
             (\<Sum>j = i..k. d + (\<Sum>l = i..j. n_shift (h ! (n_children (h ! t) ! l)))
                            + n_change (h ! (n_children (h ! t) ! j)))"
  using assms
proof (induction "n - i" arbitrary: i d m h)
  case 0
  then show ?case by simp
next
  case (Suc x)
  define cs where "cs = n_children (h ! t)"
  from Suc.hyps(2) have lt: "i < n" by simp
  then have up: "[i ..< n] = i # [Suc i ..< n]" by (simp add: upt_conv_Cons)
  define c where "c = cs ! i"
  have ci: "child h t (int i) = Inr c"
    using lt Suc.prems(2,4) by (simp add: child_Inr c_def cs_def)
  define d1 where "d1 = d + n_shift (h ! c)"
  define m1 where "m1 = m + (d1 + n_change (h ! c))"
  from Suc.prems(1) ci obtain h1 where
    1: "upd_child h t (int i) (\<lambda>n. n\<lparr>n_mod := n_mod n + m1\<rparr>) = Inr h1" and
    2: "add_child_spacing_loop t (map int [Suc i ..< n]) d1 m1 h1 = Inr h'"
    by (auto simp: up rbind_eq_Inr Let_def d1_def m1_def)
  from 1 ci have cl: "c < length h" and h1: "h1 = h[c := (h ! c)\<lparr>n_mod := n_mod (h ! c) + m1\<rparr>]"
    by (auto simp: upd_child_Inr)
  have cs1: "n_children (h1 ! t) = cs"
    using Suc.prems(4) cl by (simp add: h1 cs_def nth_list_update)
  have sh: "\<And>a. n_shift (h1 ! a) = n_shift (h ! a)" "\<And>a. n_change (h1 ! a) = n_change (h ! a)"
    using cl by (simp_all add: h1 nth_list_update)
  have x: "x = n - Suc i" using Suc.hyps(2) by simp
  have p1: "n = length (n_children (h1 ! t))" using cs1 Suc.prems(2) by (simp add: cs_def)
  have p2: "distinct (n_children (h1 ! t))" using cs1 Suc.prems(3) by (simp add: cs_def)
  have p3: "t < length h1" using Suc.prems(4) by (simp add: h1)
  note IH = Suc.hyps(1)[OF x 2 p1 p2 p3, unfolded cs1 sh]
  show ?case
  proof (intro allI impI)
    fix k assume k: "i \<le> k \<and> k < n"
    show "n_mod (h' ! (n_children (h ! t) ! k)) =
             n_mod (h ! (n_children (h ! t) ! k)) + m +
             (\<Sum>j = i..k. d + (\<Sum>l = i..j. n_shift (h ! (n_children (h ! t) ! l)))
                            + n_change (h ! (n_children (h ! t) ! j)))"
    proof (cases "k = i")
      case True
      have "\<forall>j \<in> set (map int [Suc i ..< n]). n_children (h1 ! t) ! nat j \<noteq> c"
        using lt Suc.prems(2,3) unfolding cs1 by (auto simp: c_def cs_def nth_eq_iff_index_eq)
      from add_child_spacing_loop_other[OF 2 p3 this] have "n_mod (h' ! c) = n_mod (h1 ! c)"
        by simp
      then show ?thesis
        using cl unfolding cs_def[symmetric] True
        by (simp add: h1 m1_def d1_def c_def)
    next
      case False
      with k have k': "Suc i \<le> k \<and> k < n" by simp
      have ne: "cs ! k \<noteq> c"
        using k' lt Suc.prems(2,3) by (auto simp: c_def cs_def nth_eq_iff_index_eq)
      have s1: "(\<Sum>j = i..k. d + (\<Sum>l = i..j. n_shift (h ! (cs ! l))) + n_change (h ! (cs ! j)))
          = (d + n_shift (h ! c) + n_change (h ! c)) +
            (\<Sum>j = Suc i..k. d + (\<Sum>l = i..j. n_shift (h ! (cs ! l))) + n_change (h ! (cs ! j)))"
        using k' by (simp add: sum.atLeast_Suc_atMost c_def)
      have s2: "(\<Sum>j = Suc i..k. d + (\<Sum>l = i..j. n_shift (h ! (cs ! l))) + n_change (h ! (cs ! j)))
          = (\<Sum>j = Suc i..k. d1 + (\<Sum>l = Suc i..j. n_shift (h ! (cs ! l))) + n_change (h ! (cs ! j)))"
        by (rule sum.cong) (simp_all add: sum.atLeast_Suc_atMost d1_def c_def)
      from IH k' have "n_mod (h' ! (cs ! k)) = n_mod (h1 ! (cs ! k)) + m1 +
             (\<Sum>j = Suc i..k. d1 + (\<Sum>l = Suc i..j. n_shift (h ! (cs ! l))) + n_change (h ! (cs ! j)))"
        by blast
      moreover have "n_mod (h1 ! (cs ! k)) = n_mod (h ! (cs ! k))"
        using ne by (simp add: h1)
      ultimately show ?thesis
        unfolding cs_def[symmetric] s1 s2 by (simp add: m1_def d1_def)
    qed
  qed
qed

lemma add_child_spacing_effect:
  assumes "add_child_spacing h t = Inr h'" and "distinct (n_children (h ! t))"
  shows "map n_shift h' = map n_shift h \<and> map n_change h' = map n_change h \<and>
         (\<forall>k < length (n_children (h ! t)).
            n_mod (h' ! (n_children (h ! t) ! k)) =
              n_mod (h ! (n_children (h ! t) ! k)) +
              (\<Sum>j \<le> k. (\<Sum>l \<le> j. n_shift (h ! (n_children (h ! t) ! l)))
                          + n_change (h ! (n_children (h ! t) ! j))))"
proof -
  from assms(1) have t: "t < length h" and
    l: "add_child_spacing_loop t (map int [0 ..< length (n_children (h ! t))]) 0 0 h = Inr h'"
    by (auto simp: add_child_spacing_def rbind_eq_Inr)
  have 1: "map n_shift h' = map n_shift h" "map n_change h' = map n_change h"
    using add_child_spacing_frame[OF assms(1), of n_shift]
      add_child_spacing_frame[OF assms(1), of n_change]
    by (simp_all add: ign_def)
  from add_child_spacing_loop_mod[OF l refl assms(2) t] 1 show ?thesis
    by (simp add: atMost_atLeast0)
qed

lemma spread_heap_spacing:
  "add_child_spacing spread_heap 0 = Inr (spread_heap[2 := (spread_heap ! 2)\<lparr>n_mod := 15\<rparr>])"
  by code_simp

lemma secondwalk_keeps_shift_change:
  assumes "secondwalk n h t m = Inr h'"
  shows "map n_shift h' = map n_shift h \<and> map n_change h' = map n_change h"
  using secondwalk_frame[OF _ _ _ assms, of n_shift] secondwalk_frame[OF _ _ _ assms, of n_change]
  by (simp add: ign_def)

section \<open>No index into a children vector is out of range\<close>

lemma get_oob [simp]: "get h a \<noteq> Inl OutOfBounds"
  by (simp add: get_def)

lemma modify_oob [simp]: "modify h a f \<noteq> Inl OutOfBounds"
  by (simp add: modify_def)

lemma nonnull_oob [simp]: "nonnull p \<noteq> Inl OutOfBounds"
  by (simp add: nonnull_def split: option.splits)

lemma bottom_oob [simp]: "bottom h t \<noteq> Inl OutOfBounds"
  by (simp add: bottom_def rbind_eq_Inl)

lemma child_oob:
  "child h t i = Inl OutOfBounds \<longleftrightarrow>
     t < length h \<and> \<not> (0 \<le> i \<and> i < int (length (n_children (h ! t))))"
  by (auto simp: child_def rbind_eq_Inl)

lemma last_child_oob:
  "last_child h t = Inl OutOfBounds \<longleftrightarrow> t < length h \<and> n_children (h ! t) = []"
  by (auto simp: last_child_def rbind_eq_Inl child_oob)

lemma upd_child_oob:
  "upd_child h t i f = Inl OutOfBounds \<longleftrightarrow> child h t i = Inl OutOfBounds"
  by (auto simp: upd_child_def rbind_eq_Inl)

lemma child_update:
  "n_children v = n_children (h ! a) \<Longrightarrow> child (h[a := v]) t i = child h t i"
  by (rule child_cong) (simp add: update_frame)

lemma last_child_cong:
  "map n_children h' = map n_children h \<Longrightarrow> last_child h' t = last_child h t"
  using child_cong[of h' h] map_eq_nth[of n_children h' h t] map_eq_length[of n_children h' h]
  by (simp add: last_child_def get_def)

lemma next_left_contour_oob [simp]: "next_left_contour h t \<noteq> Inl OutOfBounds"
  by (auto simp: next_left_contour_def rbind_eq_Inl child_oob)

lemma next_right_contour_oob [simp]: "next_right_contour h t \<noteq> Inl OutOfBounds"
  by (auto simp: next_right_contour_def rbind_eq_Inl last_child_oob)

lemma advance_oob [simp]: "nxt \<noteq> Inl OutOfBounds \<Longrightarrow> advance h nxt ms \<noteq> Inl OutOfBounds"
  by (auto simp: advance_def rbind_eq_Inl split: option.splits)

text \<open>The size of a children vector after an operation that keeps all of them.\<close>

lemma size_kept:
  fixes h h' :: heap
  shows "map n_children h' = map n_children h \<Longrightarrow> t < length h \<Longrightarrow>
   length (n_children (h' ! t)) = length (n_children (h ! t))"
  using map_eq_nth[of n_children h' h t] by simp

lemma set_extremes_oob: "set_extremes h t \<noteq> Inl OutOfBounds"
proof
  assume a: "set_extremes h t = Inl OutOfBounds"
  show False
  proof (cases "t < length h \<and> n_children (h ! t) \<noteq> []")
    case False
    with a show False
      by (auto simp: set_extremes_def rbind_eq_Inl get_def split: if_splits)
  next
    case True
    have m: "\<And>h0 f h1. modify h0 t f = Inr h1 \<Longrightarrow> (\<And>n. n_children (f n) = n_children n) \<Longrightarrow>
        length h0 = length h \<Longrightarrow> n_children (h0 ! t) = n_children (h ! t) \<Longrightarrow>
        length h1 = length h \<and> n_children (h1 ! t) = n_children (h ! t)"
      using True by (auto simp: modify_Inr)
    from a True show False
      by (auto simp: set_extremes_def rbind_eq_Inl child_oob last_child_oob
          dest!: m)
  qed
qed

lemma children_update:
  fixes h :: heap
  shows "n_children v = n_children (h ! a) \<Longrightarrow> n_children (h[a := v] ! t) = n_children (h ! t)"
  by (cases "a < length h") (auto simp: nth_list_update list_update_beyond)

lemma position_root_oob:
  "n_children (h ! t) \<noteq> [] \<Longrightarrow> position_root h t \<noteq> Inl OutOfBounds"
  by (auto simp: position_root_def rbind_eq_Inl child_oob last_child_oob)

lemma distribute_extra_oob:
  assumes "0 \<le> i" "i < int (length (n_children (h ! t)))"
    and "si = i - 1 \<or> (0 \<le> si + 1 \<and> si + 1 < int (length (n_children (h ! t))))"
  shows "distribute_extra h t i si d \<noteq> Inl OutOfBounds"
  using assms
  by (auto simp: distribute_extra_def Let_def rbind_eq_Inl upd_child_oob upd_child_Inr
      child_update children_update child_oob)

lemma move_subtree_oob:
  assumes "0 \<le> i" "i < int (length (n_children (h ! t)))"
    and "si = i - 1 \<or> (0 \<le> si + 1 \<and> si + 1 < int (length (n_children (h ! t))))"
  shows "move_subtree h t i si d \<noteq> Inl OutOfBounds"
proof
  assume a: "move_subtree h t i si d = Inl OutOfBounds"
  have c: "child h t i \<noteq> Inl OutOfBounds"
    using assms by (simp add: child_oob)
  have "distribute_extra (h[c := v]) t i si d \<noteq> Inl OutOfBounds"
    if "n_children v = n_children (h ! c)" for c v
    using assms that by (intro distribute_extra_oob) (simp_all add: children_update)
  with a c show False
    by (auto simp: move_subtree_def rbind_eq_Inl upd_child_oob upd_child_Inr child_update)
qed

lemma set_left_thread_oob:
  assumes "0 \<le> i" "i < int (length (n_children (h ! t)))"
  shows "set_left_thread h t i cl m \<noteq> Inl OutOfBounds"
  using assms
  by (auto simp: set_left_thread_def Let_def rbind_eq_Inl upd_child_oob upd_child_Inr
      modify_Inr child_update children_update child_oob)

lemma set_right_thread_oob:
  assumes "1 \<le> i" "i < int (length (n_children (h ! t)))"
  shows "set_right_thread h t i sr m \<noteq> Inl OutOfBounds"
  using assms
  by (auto simp: set_right_thread_def Let_def rbind_eq_Inl upd_child_oob upd_child_Inr
      modify_Inr child_update children_update child_oob)

lemma ign_children:
  "work_ign n_children" "ign n_y_update n_children" "ign n_yw_update n_children"
  "ign n_x_update n_children" "ign n_xw_update n_children"
  by (simp_all add: work_ign_def ign_def)

lemma work_ignD:
  assumes "work_ign g"
  shows "ign n_prelim_update g" "ign n_mod_update g" "ign n_shift_update g"
     "ign n_change_update g" "ign n_tl_update g" "ign n_tr_update g"
     "ign n_el_update g" "ign n_er_update g" "ign n_msel_update g" "ign n_mser_update g"
  using assms by (simp_all add: work_ign_def)

lemma separate_step_oob:
  assumes "1 \<le> i" "i < int (length (n_children (h ! t)))"
    and "\<forall>e \<in> set cursor. 0 \<le> index e \<and> index e < i"
  shows "separate_step h t i cursor s c mssr mscl \<noteq> Inl OutOfBounds"
proof -
  have "move_subtree h t i (case dropWhile P cursor of [] \<Rightarrow> i - 1 | e # _ \<Rightarrow> index e) d
          \<noteq> Inl OutOfBounds" for P d
  proof (rule move_subtree_oob)
    show "0 \<le> i" using assms(1) by simp
    show "i < int (length (n_children (h ! t)))" by (rule assms(2))
    show "(case dropWhile P cursor of [] \<Rightarrow> i - 1 | e # _ \<Rightarrow> index e) = i - 1 \<or>
      (0 \<le> (case dropWhile P cursor of [] \<Rightarrow> i - 1 | e # _ \<Rightarrow> index e) + 1 \<and>
       (case dropWhile P cursor of [] \<Rightarrow> i - 1 | e # _ \<Rightarrow> index e) + 1
         < int (length (n_children (h ! t))))"
    proof (cases "dropWhile P cursor")
      case Nil
      show ?thesis unfolding Nil by simp
    next
      case (Cons e es)
      then have "e \<in> set cursor"
        by (metis list.set_intros(1) set_dropWhileD)
      with assms show ?thesis unfolding Cons by auto
    qed
  qed
  then show ?thesis
    by (auto simp: separate_step_def Let_def rbind_eq_Inl split: prod.splits)
qed

lemma separate_loop_oob:
  assumes "1 \<le> i" "i < int (length (n_children (st_heap st ! t)))" "t < length (st_heap st)"
    and "\<forall>e \<in> set (st_cursor st). 0 \<le> index e \<and> index e < i"
  shows "separate_loop fuel t i st \<noteq> Inl OutOfBounds"
  using assms
proof (induction fuel arbitrary: st)
  case 0
  then show ?case by (simp split: option.splits)
next
  case (Suc n)
  show ?case
  proof (cases "\<exists>s c. st_sr st = Some s \<and> st_cl st = Some c")
    case False
    then show ?thesis by (auto split: option.splits)
  next
    case True
    then obtain s c where sc: "st_sr st = Some s" "st_cl st = Some c" by blast
    let ?step = "separate_step (st_heap st) t i (st_cursor st) s c (st_mssr st) (st_mscl st)"
    have 1: "?step \<noteq> Inl OutOfBounds"
      using Suc.prems by (intro separate_step_oob) auto
    have 2: "separate_loop n t i st1 \<noteq> Inl OutOfBounds" if "?step = Inr st1" for st1
    proof (rule Suc.IH[OF Suc.prems(1)])
      have f: "map n_children (st_heap st1) = map n_children (st_heap st)"
        using separate_step_frame[OF that, of n_children] by (simp add: ign_def)
      show "t < length (st_heap st1)"
        using map_eq_length[OF f] Suc.prems(3) by simp
      show "i < int (length (n_children (st_heap st1 ! t)))"
        using map_eq_nth[OF f Suc.prems(3)] Suc.prems(2) by simp
      show "\<forall>e \<in> set (st_cursor st1). 0 \<le> index e \<and> index e < i"
        using separate_step_cases(3)[OF that] Suc.prems(4) by (auto dest: set_dropWhileD)
    qed
    from 1 2 sc show ?thesis by (auto simp: rbind_eq_Inl)
  qed
qed

lemma separate_oob:
  assumes "1 \<le> i" "i < int (length (n_children (h ! t)))"
    and "\<forall>e \<in> set ih. 0 \<le> index e \<and> index e < i"
  shows "separate fuel h t i ih \<noteq> Inl OutOfBounds"
proof (cases "t < length h")
  case False
  then show ?thesis by (simp add: separate_def child_def get_def)
next
  case True
  have l: "separate_loop fuel t i
             \<lparr>st_heap = h, st_cursor = ih, st_sr = a, st_cl = b, st_mssr = x, st_mscl = y\<rparr>
           \<noteq> Inl OutOfBounds" for a b x y
    using assms True by (intro separate_loop_oob) simp_all
  have th: "set_left_thread (st_heap st) t i c m \<noteq> Inl OutOfBounds \<and>
            set_right_thread (st_heap st) t i s m' \<noteq> Inl OutOfBounds"
    if "separate_loop fuel t i st0 = Inr st" "st_heap st0 = h" for st0 st c m s m'
  proof -
    have f: "map n_children (st_heap st) = map n_children h"
      using separate_loop_frame[OF that(1), of n_children] that(2) by (simp add: ign_def)
    have "i < int (length (n_children (st_heap st ! t)))"
      using map_eq_nth[OF f True] assms(2) by simp
    with assms(1) show ?thesis
      by (simp add: set_left_thread_oob set_right_thread_oob)
  qed
  have c: "child h t (i - 1) \<noteq> Inl OutOfBounds" "child h t i \<noteq> Inl OutOfBounds"
    using assms by (simp_all add: child_oob)
  show ?thesis
  proof
    assume "separate fuel h t i ih = Inl OutOfBounds"
    with c l th show False
      by (fastforce simp: separate_def rbind_eq_Inl split: option.splits)
  qed
qed

lemma set_y_oob [simp]: "set_y h t v \<noteq> Inl OutOfBounds"
  by (simp add: set_y_def)

lemma set_x_oob [simp]: "set_x h t v \<noteq> Inl OutOfBounds"
  by (simp add: set_x_def)

lemma assign_y_oob [simp]: "assign_y h t \<noteq> Inl OutOfBounds"
  by (auto simp: assign_y_def rbind_eq_Inl split: option.splits)

lemma assign_y_children:
  "assign_y h t = Inr h1 \<Longrightarrow> map n_children h1 = map n_children h"
  by (rule assign_y_frame) (simp_all add: ign_def)

lemma updateIYL_indices:
  assumes "\<forall>e \<in> set ih. 0 \<le> index e \<and> index e < i" "0 \<le> i"
  shows "\<forall>e \<in> set (updateIYL m i ih). 0 \<le> index e \<and> index e < i + 1"
  using assms by (auto simp: updateIYL_def dest!: set_dropWhileD)

lemma firstwalk_oob_aux:
  "(\<forall>h t. firstwalk n h t \<noteq> Inl OutOfBounds) \<and>
   (\<forall>h t i ih. 1 \<le> i \<longrightarrow> (\<forall>e \<in> set ih. 0 \<le> index e \<and> index e < i) \<longrightarrow>
      firstwalk_loop n h t i ih \<noteq> Inl OutOfBounds)"
proof (induction n)
  case 0
  show ?case by simp
next
  case (Suc n)
  then have fw: "\<And>h t. firstwalk n h t \<noteq> Inl OutOfBounds"
    and fl: "\<And>h t i ih. 1 \<le> i \<Longrightarrow> \<forall>e \<in> set ih. 0 \<le> index e \<and> index e < i \<Longrightarrow>
               firstwalk_loop n h t i ih \<noteq> Inl OutOfBounds"
    by blast+
  have 1: "firstwalk (Suc n) h t \<noteq> Inl OutOfBounds" for h t
  proof
    assume a: "firstwalk (Suc n) h t = Inl OutOfBounds"
    then have t: "t < length h"
      by (auto simp: rbind_eq_Inl rbind_eq_Inr assign_y_def get_def split: if_splits)
    from a obtain h1 where h1: "map n_children h1 = map n_children h" and
      b: "(if n_children (h1 ! t) = [] then set_extremes h1 t
           else rbind (child h1 t 0) (\<lambda>c0. rbind (firstwalk n h1 c0) (\<lambda>h2.
                rbind (child h2 t 0) (\<lambda>c0'. rbind (bottom h2 c0') (\<lambda>b.
                rbind (firstwalk_loop n h2 t 1 (updateIYL b 0 [])) (\<lambda>h3.
                rbind (position_root h3 t) (\<lambda>h4. set_extremes h4 t))))))) = Inl OutOfBounds"
      by (auto simp: rbind_eq_Inl dest: assign_y_children)
    have t1: "t < length h1" using map_eq_length[OF h1] t by simp
    show False
    proof (cases "n_children (h1 ! t) = []")
      case True
      with b show False by (simp add: set_extremes_oob)
    next
      case False
      have c1: "child h1 t 0 \<noteq> Inl OutOfBounds" using False by (simp add: child_oob)
      have c2: "child h2 t 0 \<noteq> Inl OutOfBounds \<and> n_children (h2 ! t) \<noteq> [] \<and> t < length h2"
        if "firstwalk n h1 c0 = Inr h2" for c0 h2
      proof -
        have f: "map n_children h2 = map n_children h1"
          by (rule firstwalk_frame[OF that]) (simp_all add: ign_children)
        with map_eq_nth[OF f t1] map_eq_length[OF f] False t1 show ?thesis
          by (simp add: child_oob)
      qed
      have l: "firstwalk_loop n h2 t 1 (updateIYL b 0 []) \<noteq> Inl OutOfBounds" for h2 b
        by (rule fl) (simp_all add: updateIYL_def)
      have p: "position_root h3 t \<noteq> Inl OutOfBounds"
        if "firstwalk_loop n h2 t 1 ih = Inr h3" "n_children (h2 ! t) \<noteq> []" "t < length h2"
        for h2 ih h3
      proof -
        have f: "map n_children h3 = map n_children h2"
          by (rule firstwalk_loop_frame[OF that(1)]) (simp_all add: ign_children)
        with map_eq_nth[OF f that(3)] that(2) show ?thesis
          by (simp add: position_root_oob)
      qed
      from b False c1 c2 l p fw show False
        by (fastforce simp: rbind_eq_Inl set_extremes_oob)
    qed
  qed
  have 2: "firstwalk_loop (Suc n) h t i ih \<noteq> Inl OutOfBounds"
    if i: "1 \<le> i" and ih: "\<forall>e \<in> set ih. 0 \<le> index e \<and> index e < i" for h t i ih
  proof
    assume a: "firstwalk_loop (Suc n) h t i ih = Inl OutOfBounds"
    then have t: "t < length h" and lt: "i < int (length (n_children (h ! t)))"
      by (auto simp: rbind_eq_Inl get_def split: if_splits)
    have c1: "child h t i \<noteq> Inl OutOfBounds" using i lt by (simp add: child_oob)
    have c2: "child h1 t i \<noteq> Inl OutOfBounds \<and> separate n h1 t i ih \<noteq> Inl OutOfBounds"
      if "firstwalk n h c = Inr h1" for c h1
    proof -
      have f: "map n_children h1 = map n_children h"
        by (rule firstwalk_frame[OF that]) (simp_all add: ign_children)
      have s: "i < int (length (n_children (h1 ! t)))"
        using map_eq_nth[OF f t] lt by simp
      with i ih show ?thesis
        by (simp add: child_oob separate_oob)
    qed
    have l: "firstwalk_loop n h2 t (i + 1) (updateIYL m i ih) \<noteq> Inl OutOfBounds" for h2 m
      using i updateIYL_indices[OF ih, of m] by (intro fl) simp_all
    from a t lt c1 c2 l fw show False
      by (fastforce simp: rbind_eq_Inl)
  qed
  from 1 2 show ?case by blast
qed

lemma add_child_spacing_loop_oob:
  assumes "\<forall>i \<in> set is. 0 \<le> i \<and> i < int (length (n_children (h ! t)))"
  shows "add_child_spacing_loop t is d m h \<noteq> Inl OutOfBounds"
  using assms
proof (induction "is" arbitrary: d m h)
  case Nil
  show ?case by simp
next
  case (Cons i "is")
  have c: "child h t i \<noteq> Inl OutOfBounds"
    using Cons.prems by (simp add: child_oob)
  have "add_child_spacing_loop t is d1 m1 (h[c := v]) \<noteq> Inl OutOfBounds"
    if "n_children v = n_children (h ! c)" for c v d1 m1
    using Cons.prems that by (intro Cons.IH) (simp add: children_update)
  with c show ?case
    by (auto simp: rbind_eq_Inl Let_def upd_child_oob upd_child_Inr)
qed

lemma add_child_spacing_oob: "add_child_spacing h t \<noteq> Inl OutOfBounds"
  by (auto simp: add_child_spacing_def rbind_eq_Inl intro!: add_child_spacing_loop_oob)

lemma for_each_oob:
  assumes "\<And>c h. f c h \<noteq> Inl OutOfBounds"
  shows "for_each cs f h \<noteq> Inl OutOfBounds"
  using assms by (induction cs arbitrary: h) (auto simp: rbind_eq_Inl)

lemma secondwalk_oob: "secondwalk n h t m \<noteq> Inl OutOfBounds"
proof (induction n arbitrary: h t m)
  case 0
  show ?case by simp
next
  case (Suc n)
  have "for_each cs (\<lambda>c h'. secondwalk n h' c m1) h2 \<noteq> Inl OutOfBounds" for cs m1 h2
    by (rule for_each_oob) (rule Suc.IH)
  then show ?case
    by (auto simp: rbind_eq_Inl Let_def add_child_spacing_oob)
qed

text \<open>
  C10: whatever the store, the root and the fuel, \<^verbatim>\<open>layout\<close> never fails with an
  out-of-range index into a \<^verbatim>\<open>children\<close> vector. Every access
  \<^verbatim>\<open>children[0]\<close> and \<^verbatim>\<open>children[size - 1]\<close> of \<^verbatim>\<open>position_root\<close>,
  \<^verbatim>\<open>set_extremes\<close> and the contour helpers is guarded by a test that the vector is
  not empty, the accesses of \<^verbatim>\<open>separate\<close> and \<^verbatim>\<open>move_subtree\<close> have
  \<open>1 \<le> i < size\<close>, and the index \<open>si + 1\<close> of \<^verbatim>\<open>distribute_extra\<close> comes from the
  skip list, which only holds indices below \<open>i\<close>.
\<close>

theorem layout_in_bounds: "layout fuel h t \<noteq> Inl OutOfBounds"
  using firstwalk_oob_aux[of fuel] secondwalk_oob
  by (auto simp: layout_def rbind_eq_Inl)

section \<open>Trees in the store\<close>

lemma is_tree_valid: "is_tree h par s \<Longrightarrow> a \<in> set (addrs s) \<Longrightarrow> a < length h"
  by (induction h par s rule: is_tree.induct) auto

lemma is_tree_top: "is_tree h par s \<Longrightarrow> top s < length h \<and> n_parent (h ! top s) = par \<and>
    n_children (h ! top s) = map top (subs s)"
  by (cases s) simp

lemma is_tree_subs: "is_tree h par s \<Longrightarrow> s' \<in> set (subs s) \<Longrightarrow> is_tree h (Some (top s)) s'"
  by (cases s) simp

lemma is_tree_struct:
  "is_tree h par s \<Longrightarrow> map struct h' = map struct h \<Longrightarrow> is_tree h' par s"
proof (induction h par s rule: is_tree.induct)
  case (1 h par a ts)
  from "1.prems" have a: "a < length h" by simp
  from map_eq_nth[OF "1.prems"(2) a] map_eq_length[OF "1.prems"(2)] 1 show ?case
    by (auto simp: struct_def)
qed


lemma top_in_addrs [simp]: "top s \<in> set (addrs s)"
  by (cases s) simp

lemma addrs_subs: "s' \<in> set (subs s) \<Longrightarrow> set (addrs s') \<subseteq> set (addrs s)"
  by (cases s) auto

section \<open>Composing visits\<close>

lemma struct_fields:
  "struct n' = struct n \<longleftrightarrow> n_children n' = n_children n \<and> n_parent n' = n_parent n \<and>
     n_w n' = n_w n \<and> n_h n' = n_h n"
  by (auto simp: struct_def)

lemma ign_struct:
  "work_ign struct" "ign n_y_update struct" "ign n_yw_update struct"
  "ign n_x_update struct" "ign n_xw_update struct"
  by (simp_all add: work_ign_def ign_def struct_def)

lemma visits_y_frame:
  assumes "map (\<lambda>n. (struct n, n_y n, n_yw n)) h' = map (\<lambda>n. (struct n, n_y n, n_yw n)) h"
  shows "visits_y h h' {}"
proof -
  have "\<forall>a < length h. struct (h' ! a) = struct (h ! a) \<and> n_y (h' ! a) = n_y (h ! a) \<and>
      n_yw (h' ! a) = n_yw (h ! a)"
    using map_eq_nth[OF assms] by auto
  with map_eq_length[OF assms] show ?thesis
    by (auto simp: visits_y_def intro!: nth_equalityI)
qed

lemma visits_y_trans:
  assumes 1: "visits_y h h1 A" and 2: "visits_y h1 h2 B" and d: "A \<inter> B = {}"
    and p: "\<forall>a \<in> A. a < length h \<longrightarrow> (\<forall>p. n_parent (h ! a) = Some p \<longrightarrow> p \<notin> B)"
  shows "visits_y h h2 (A \<union> B)"
proof -
  from 1 2 have s1: "map struct h1 = map struct h" and s2: "map struct h2 = map struct h1"
    by (simp_all add: visits_y_def)
  have l1: "length h1 = length h" using map_eq_length[OF s1] .
  have st1: "\<And>a. a < length h \<Longrightarrow> struct (h1 ! a) = struct (h ! a)"
    using map_eq_nth[OF s1] .
  have st2: "\<And>a. a < length h \<Longrightarrow> struct (h2 ! a) = struct (h1 ! a)"
    using map_eq_nth[OF s2] l1 by simp
  have "if a \<in> A \<union> B
        then n_yw (h2 ! a) = Suc (n_yw (h ! a)) \<and> row_ok h2 a \<and>
             (\<forall>p. n_parent (h ! a) = Some p \<longrightarrow> p < length h)
        else n_y (h2 ! a) = n_y (h ! a) \<and> n_yw (h2 ! a) = n_yw (h ! a)"
    if a: "a < length h" for a
  proof -
    from 1 a have v1: "if a \<in> A
        then n_yw (h1 ! a) = Suc (n_yw (h ! a)) \<and> row_ok h1 a \<and>
             (\<forall>p. n_parent (h ! a) = Some p \<longrightarrow> p < length h)
        else n_y (h1 ! a) = n_y (h ! a) \<and> n_yw (h1 ! a) = n_yw (h ! a)"
      by (simp add: visits_y_def)
    from 2 a l1 have v2: "if a \<in> B
        then n_yw (h2 ! a) = Suc (n_yw (h1 ! a)) \<and> row_ok h2 a \<and>
             (\<forall>p. n_parent (h1 ! a) = Some p \<longrightarrow> p < length h)
        else n_y (h2 ! a) = n_y (h1 ! a) \<and> n_yw (h2 ! a) = n_yw (h1 ! a)"
      unfolding visits_y_def l1 by blast
    have pa: "n_parent (h2 ! a) = n_parent (h1 ! a)" "n_parent (h1 ! a) = n_parent (h ! a)"
      using st1[OF a] st2[OF a] by (simp_all add: struct_fields)
    show ?thesis
    proof (cases "a \<in> A")
      case False
      with v1 v2 pa show ?thesis by auto
    next
      case True
      with d have nb: "a \<notin> B" by auto
      have "row_ok h2 a"
      proof (cases "n_parent (h ! a)")
        case None
        with v1 v2 True nb pa show ?thesis by (simp add: row_ok_def)
      next
        case (Some q)
        with p True a v1 have q: "q \<notin> B" "q < length h" by auto
        from 2 q l1 have "n_y (h2 ! q) = n_y (h1 ! q)" by (simp add: visits_y_def)
        moreover have "n_h (h2 ! q) = n_h (h1 ! q)" using st2[OF q(2)] by (simp add: struct_fields)
        ultimately show ?thesis
          using v1 v2 True nb pa Some by (simp add: row_ok_def)
      qed
      with v1 v2 True nb show ?thesis by simp
    qed
  qed
  with s1 s2 show ?thesis by (simp add: visits_y_def)
qed


lemma frame_then_visits_y:
  assumes "map (\<lambda>n. (struct n, n_y n, n_yw n)) h1 = map (\<lambda>n. (struct n, n_y n, n_yw n)) h"
    and "visits_y h1 h2 A"
  shows "visits_y h h2 A"
  using visits_y_trans[OF visits_y_frame[OF assms(1)] assms(2)] by simp



section \<open>The bottom-up pass assigns every row once\<close>


lemma struct_children:
  "map struct h' = map struct h \<Longrightarrow> t < length h \<Longrightarrow> n_children (h' ! t) = n_children (h ! t)"
  using map_eq_nth[of struct h' h t] by (simp add: struct_fields)

lemma drop_map_top:
  assumes "drop k cs = map top ts" "k < length cs"
  obtains s1 ts' where "ts = s1 # ts'" "top s1 = cs ! k" "drop (Suc k) cs = map top ts'"
proof -
  from assms(2) have "drop k cs = cs ! k # drop (Suc k) cs"
    by (simp add: Cons_nth_drop_Suc)
  with assms(1) show ?thesis
    by (cases ts) (auto intro: that)
qed



section \<open>The top-down pass assigns every column once\<close>





lemma secondwalk_struct: "secondwalk n h t m = Inr h' \<Longrightarrow> map struct h' = map struct h"
  by (rule secondwalk_frame[rotated -1]) (simp_all add: ign_struct work_ignD[OF ign_struct(1)])



section \<open>Rows and writes of a whole layout\<close>

lemma layout_Inr:
  "layout fuel h t = Inr h' \<longleftrightarrow>
     (\<exists>h1. firstwalk fuel h t = Inr h1 \<and> secondwalk fuel h1 t 0 = Inr h')"
  by (simp add: layout_def rbind_eq_Inr)

lemma pair_layout: "layout 5 pair_heap (top pair_shape) = Inr pair_result"
  by code_simp

lemma pair_firstwalk: "firstwalk 5 pair_heap (top pair_shape) = Inr pair_walked"
  by code_simp

lemma pair_secondwalk: "secondwalk 5 pair_walked (top pair_shape) 0 = Inr pair_result"
  by code_simp

lemma pair_tree: "is_tree pair_heap None pair_shape" "distinct (addrs pair_shape)"
  by code_simp+





section \<open>Two runs on stores with the same cores\<close>

lemma same_core_iff:
  "same_core n m \<longleftrightarrow>
     n_children n = n_children m \<and> n_parent n = n_parent m \<and> n_w n = n_w m \<and> n_h n = n_h m \<and>
     n_prelim n = n_prelim m \<and> n_mod n = n_mod m \<and> n_shift n = n_shift m \<and>
     n_change n = n_change m \<and> n_tl n = n_tl m \<and> n_tr n = n_tr m \<and> n_el n = n_el m \<and>
     n_er n = n_er m \<and> n_msel n = n_msel m \<and> n_mser n = n_mser m"
  by (cases n; cases m) (auto simp: same_core_def core_def)

lemma rbind_transfer [transfer_rule]:
  "rel_fun (rel_sum (=) A) (rel_fun (rel_fun A (rel_sum (=) B)) (rel_sum (=) B))
     rbind rbind"
  unfolding rbind_def by transfer_prover

lemma get_transfer [transfer_rule]:
  "rel_fun (list_all2 same_core) (rel_fun (=) (rel_sum (=) same_core)) get get"
  by (auto simp: rel_fun_def get_def list_all2_lengthD list_all2_nthD)

lemma modify_transfer [transfer_rule]:
  "rel_fun (list_all2 same_core) (rel_fun (=) (rel_fun (rel_fun same_core same_core) (rel_sum (=) (list_all2 same_core))))
     modify modify"
  by (auto simp: rel_fun_def modify_def list_all2_lengthD list_all2_nthD intro!: list_all2_update_cong)

lemma sel_transfer [transfer_rule]:
  "rel_fun same_core (=) n_children n_children"
  "rel_fun same_core (=) n_parent n_parent"
  "rel_fun same_core (=) n_w n_w"
  "rel_fun same_core (=) n_h n_h"
  "rel_fun same_core (=) n_prelim n_prelim"
  "rel_fun same_core (=) n_mod n_mod"
  "rel_fun same_core (=) n_shift n_shift"
  "rel_fun same_core (=) n_change n_change"
  "rel_fun same_core (=) n_tl n_tl"
  "rel_fun same_core (=) n_tr n_tr"
  "rel_fun same_core (=) n_el n_el"
  "rel_fun same_core (=) n_er n_er"
  "rel_fun same_core (=) n_msel n_msel"
  "rel_fun same_core (=) n_mser n_mser"
  by (simp_all add: rel_fun_def same_core_iff)

lemma upd_transfer [transfer_rule]:
  "rel_fun (rel_fun (=) (=)) (rel_fun same_core same_core) n_prelim_update n_prelim_update"
  "rel_fun (rel_fun (=) (=)) (rel_fun same_core same_core) n_mod_update n_mod_update"
  "rel_fun (rel_fun (=) (=)) (rel_fun same_core same_core) n_shift_update n_shift_update"
  "rel_fun (rel_fun (=) (=)) (rel_fun same_core same_core) n_change_update n_change_update"
  "rel_fun (rel_fun (=) (=)) (rel_fun same_core same_core) n_tl_update n_tl_update"
  "rel_fun (rel_fun (=) (=)) (rel_fun same_core same_core) n_tr_update n_tr_update"
  "rel_fun (rel_fun (=) (=)) (rel_fun same_core same_core) n_el_update n_el_update"
  "rel_fun (rel_fun (=) (=)) (rel_fun same_core same_core) n_er_update n_er_update"
  "rel_fun (rel_fun (=) (=)) (rel_fun same_core same_core) n_msel_update n_msel_update"
  "rel_fun (rel_fun (=) (=)) (rel_fun same_core same_core) n_mser_update n_mser_update"
  by (simp_all add: rel_fun_def same_core_iff)

lemma child_transfer [transfer_rule]:
  "rel_fun (list_all2 same_core) (rel_fun (=) (rel_fun (=) (rel_sum (=) (=)))) child child"
  unfolding child_def by transfer_prover

lemma last_child_transfer [transfer_rule]:
  "rel_fun (list_all2 same_core) (rel_fun (=) (rel_sum (=) (=))) last_child last_child"
  unfolding last_child_def by transfer_prover

lemma upd_child_transfer [transfer_rule]:
  "rel_fun (list_all2 same_core) (rel_fun (=) (rel_fun (=) (rel_fun (rel_fun same_core same_core) (rel_sum (=) (list_all2 same_core)))))
     upd_child upd_child"
  unfolding upd_child_def by transfer_prover

lemma nonnull_transfer [transfer_rule]:
  "rel_fun (=) (rel_sum (=) (=)) nonnull nonnull"
  unfolding nonnull_def by transfer_prover

lemma set_extremes_transfer [transfer_rule]:
  "rel_fun (list_all2 same_core) (rel_fun (=) (rel_sum (=) (list_all2 same_core)))
     set_extremes set_extremes"
  unfolding set_extremes_def by transfer_prover

lemma set_left_thread_transfer [transfer_rule]:
  "rel_fun (list_all2 same_core) (rel_fun (=) (rel_fun (=) (rel_fun (=) (rel_fun (=) (rel_sum (=) (list_all2 same_core))))))
     set_left_thread set_left_thread"
  unfolding set_left_thread_def by transfer_prover

lemma set_right_thread_transfer [transfer_rule]:
  "rel_fun (list_all2 same_core) (rel_fun (=) (rel_fun (=) (rel_fun (=) (rel_fun (=) (rel_sum (=) (list_all2 same_core))))))
     set_right_thread set_right_thread"
  unfolding set_right_thread_def by transfer_prover

lemma position_root_transfer [transfer_rule]:
  "rel_fun (list_all2 same_core) (rel_fun (=) (rel_sum (=) (list_all2 same_core)))
     position_root position_root"
  unfolding position_root_def by transfer_prover

lemma distribute_extra_transfer [transfer_rule]:
  "rel_fun (list_all2 same_core) (rel_fun (=) (rel_fun (=) (rel_fun (=) (rel_fun (=) (rel_sum (=) (list_all2 same_core))))))
     distribute_extra distribute_extra"
  unfolding distribute_extra_def by transfer_prover

lemma move_subtree_transfer [transfer_rule]:
  "rel_fun (list_all2 same_core) (rel_fun (=) (rel_fun (=) (rel_fun (=) (rel_fun (=) (rel_sum (=) (list_all2 same_core))))))
     move_subtree move_subtree"
  unfolding move_subtree_def by transfer_prover

lemma next_left_contour_transfer [transfer_rule]:
  "rel_fun (list_all2 same_core) (rel_fun (=) (rel_sum (=) (=)))
     next_left_contour next_left_contour"
  unfolding next_left_contour_def by transfer_prover

lemma next_right_contour_transfer [transfer_rule]:
  "rel_fun (list_all2 same_core) (rel_fun (=) (rel_sum (=) (=)))
     next_right_contour next_right_contour"
  unfolding next_right_contour_def by transfer_prover

lemma advance_transfer [transfer_rule]:
  "rel_fun (list_all2 same_core) (rel_fun (rel_sum (=) (=)) (rel_fun (=) (rel_sum (=) (=))))
     advance advance"
  unfolding advance_def by transfer_prover

lemma rel_rbind:
  assumes "rel_sum (=) A m m'"
    and "\<And>v v'. A v v' \<Longrightarrow> m = Inr v \<Longrightarrow> m' = Inr v' \<Longrightarrow> rel_sum (=) B (f v) (f' v')"
  shows "rel_sum (=) B (rbind m f) (rbind m' f')"
  using assms by (cases m; cases m') auto

lemma rel_sum_mono':
  "rel_sum (=) A r r' \<Longrightarrow> (\<And>v v'. A v v' \<Longrightarrow> r = Inr v \<Longrightarrow> r' = Inr v' \<Longrightarrow> B v v') \<Longrightarrow>
   rel_sum (=) B r r'"
  by (cases r; cases r') auto

lemma cores_length: "list_all2 same_core h g \<Longrightarrow> length g = length h"
  by (simp add: list_all2_lengthD)

lemma cores_nth: "list_all2 same_core h g \<Longrightarrow> a < length h \<Longrightarrow> same_core (h ! a) (g ! a)"
  by (simp add: list_all2_nthD)

lemma simD:
  assumes "sim V C h g"
  shows "list_all2 same_core h g" "agree_y V h g" "threads_in C h" "child_closed C h" "C \<subseteq> V"
  using assms by (simp_all add: sim_def)

text \<open>An operation that reads no row and writes no row or children vector.\<close>

lemma sim_step:
  assumes "sim V C h g" and "rel_sum (=) (list_all2 same_core) r r'"
    and "\<And>h'. r = Inr h' \<Longrightarrow> map (\<lambda>n. (n_y n, n_children n)) h' =
                            map (\<lambda>n. (n_y n, n_children n)) h \<and> threads_in C h'"
    and "\<And>g'. r' = Inr g' \<Longrightarrow> map n_y g' = map n_y g"
  shows "rel_sum (=) (sim V C) r r'"
  using assms(2)
proof (rule rel_sum_mono')
  fix h' g' assume c: "list_all2 same_core h' g'" and r: "r = Inr h'" "r' = Inr g'"
  from assms(3)[OF r(1)] have f: "map (\<lambda>n. (n_y n, n_children n)) h' =
     map (\<lambda>n. (n_y n, n_children n)) h" and th: "threads_in C h'" by simp_all
  note f' = assms(4)[OF r(2)]
  note s = simD[OF assms(1)]
  have l: "length h' = length h" using f by (rule map_eq_length)
  have lg: "length g = length h" using s(1) by (rule cores_length)
  have q: "\<And>a. a < length h \<Longrightarrow> n_y (h' ! a) = n_y (h ! a) \<and>
     n_children (h' ! a) = n_children (h ! a)"
    using map_eq_nth[OF f] by simp
  have q': "\<And>a. a < length h \<Longrightarrow> n_y (g' ! a) = n_y (g ! a)"
    using map_eq_nth[OF f'] lg by simp
  have "agree_y V h' g'"
    using s(2) q q' by (simp add: agree_y_def l)
  moreover have "child_closed C h'"
    using s(4) q by (simp add: child_closed_def l)
  ultimately show "sim V C h' g'"
    using c s(5) th by (simp add: sim_def)
qed

lemma threads_frame:
  assumes "map (\<lambda>n. (n_tl n, n_tr n)) h' = map (\<lambda>n. (n_tl n, n_tr n)) h" "threads_in C h"
  shows "threads_in C h'"
  using map_eq_nth[OF assms(1)] map_eq_length[OF assms(1)] assms(2)
  by (simp add: threads_in_def)

lemma sim_quiet:
  assumes "sim V C h g" and "rel_sum (=) (list_all2 same_core) r r'"
    and "\<And>h'. r = Inr h' \<Longrightarrow> map (\<lambda>n. (n_y n, n_tl n, n_tr n, n_children n)) h' =
                            map (\<lambda>n. (n_y n, n_tl n, n_tr n, n_children n)) h"
    and "\<And>g'. r' = Inr g' \<Longrightarrow> map n_y g' = map n_y g"
  shows "rel_sum (=) (sim V C) r r'"
  using assms(1,2)
proof (rule sim_step)
  fix h' assume "r = Inr h'"
  note f = assms(3)[OF this]
  have "map (\<lambda>n. (n_y n, n_children n)) h' = map (\<lambda>n. (n_y n, n_children n)) h"
    using map_eq_nth[OF f] map_eq_length[OF f] by (auto intro!: nth_equalityI)
  moreover have "map (\<lambda>n. (n_tl n, n_tr n)) h' = map (\<lambda>n. (n_tl n, n_tr n)) h"
    using map_eq_nth[OF f] map_eq_length[OF f] by (auto intro!: nth_equalityI)
  ultimately show "map (\<lambda>n. (n_y n, n_children n)) h' = map (\<lambda>n. (n_y n, n_children n)) h \<and>
      threads_in C h'"
    using threads_frame simD(3)[OF assms(1)] by blast
qed (rule assms(4))

lemma ign_quiet:
  "ign n_prelim_update (\<lambda>n. (n_y n, n_tl n, n_tr n, n_children n))"
  "ign n_mod_update (\<lambda>n. (n_y n, n_tl n, n_tr n, n_children n))"
  "ign n_shift_update (\<lambda>n. (n_y n, n_tl n, n_tr n, n_children n))"
  "ign n_change_update (\<lambda>n. (n_y n, n_tl n, n_tr n, n_children n))"
  "ign n_el_update (\<lambda>n. (n_y n, n_tl n, n_tr n, n_children n))"
  "ign n_er_update (\<lambda>n. (n_y n, n_tl n, n_tr n, n_children n))"
  "ign n_msel_update (\<lambda>n. (n_y n, n_tl n, n_tr n, n_children n))"
  "ign n_mser_update (\<lambda>n. (n_y n, n_tl n, n_tr n, n_children n))"
  by (simp_all add: ign_def)

lemma ign_y: "work_ign n_y" "ign n_x_update n_y" "ign n_xw_update n_y"
  by (simp_all add: work_ign_def ign_def)

lemma sim_set_extremes:
  assumes "sim V C h g"
  shows "rel_sum (=) (sim V C) (set_extremes h t) (set_extremes g t)"
  using assms
proof (rule sim_quiet)
  show "rel_sum (=) (list_all2 same_core) (set_extremes h t) (set_extremes g t)"
    using set_extremes_transfer simD(1)[OF assms] by (simp add: rel_fun_def)
  show "map (\<lambda>n. (n_y n, n_tl n, n_tr n, n_children n)) h' =
        map (\<lambda>n. (n_y n, n_tl n, n_tr n, n_children n)) h" if "set_extremes h t = Inr h'" for h'
    using that by (rule set_extremes_frame) (rule ign_quiet)+
  show "map n_y g' = map n_y g" if "set_extremes g t = Inr g'" for g'
    using that by (rule set_extremes_frame) (simp_all add: work_ignD[OF ign_y(1)])
qed

lemma sim_position_root:
  assumes "sim V C h g"
  shows "rel_sum (=) (sim V C) (position_root h t) (position_root g t)"
  using assms
proof (rule sim_quiet)
  show "rel_sum (=) (list_all2 same_core) (position_root h t) (position_root g t)"
    using position_root_transfer simD(1)[OF assms] by (simp add: rel_fun_def)
  show "map (\<lambda>n. (n_y n, n_tl n, n_tr n, n_children n)) h' =
        map (\<lambda>n. (n_y n, n_tl n, n_tr n, n_children n)) h" if "position_root h t = Inr h'" for h'
    using that by (rule position_root_frame) (rule ign_quiet)
  show "map n_y g' = map n_y g" if "position_root g t = Inr g'" for g'
    using that by (rule position_root_frame) (simp_all add: work_ignD[OF ign_y(1)])
qed

lemma sim_move_subtree:
  assumes "sim V C h g"
  shows "rel_sum (=) (sim V C) (move_subtree h t i si d) (move_subtree g t i si d)"
  using assms
proof (rule sim_quiet)
  show "rel_sum (=) (list_all2 same_core) (move_subtree h t i si d) (move_subtree g t i si d)"
    using move_subtree_transfer simD(1)[OF assms] by (simp add: rel_fun_def)
  show "map (\<lambda>n. (n_y n, n_tl n, n_tr n, n_children n)) h' =
        map (\<lambda>n. (n_y n, n_tl n, n_tr n, n_children n)) h" if "move_subtree h t i si d = Inr h'" for h'
    using that by (rule move_subtree_frame) (rule ign_quiet)+
  show "map n_y g' = map n_y g" if "move_subtree g t i si d = Inr g'" for g'
    using that by (rule move_subtree_frame) (simp_all add: work_ignD[OF ign_y(1)])
qed

text \<open>Setting a thread to a node of \<open>C\<close>.\<close>

lemma threads_update:
  assumes "threads_in C h" and "n_tl v = n_tl (h ! a) \<or> (\<exists>b \<in> C. n_tl v = Some b)"
    and "n_tr v = n_tr (h ! a) \<or> (\<exists>b \<in> C. n_tr v = Some b)"
  shows "threads_in C (h[a := v])"
  unfolding threads_in_def
proof (intro allI impI)
  fix aa assume aa: "aa < length (h[a := v])"
  show "(\<forall>b. n_tl (h[a := v] ! aa) = Some b \<longrightarrow> b \<in> C) \<and>
        (\<forall>b. n_tr (h[a := v] ! aa) = Some b \<longrightarrow> b \<in> C)"
  proof (cases "aa = a")
    case True
    with aa assms show ?thesis by (auto simp: threads_in_def)
  next
    case False
    with aa assms(1) show ?thesis by (simp add: threads_in_def)
  qed
qed

lemma set_left_thread_threads:
  assumes "set_left_thread h t i c m = Inr h'" "threads_in C h" "c \<in> C"
  shows "threads_in C h'"
  using assms
  by (auto simp: set_left_thread_def Let_def rbind_eq_Inr modify_Inr upd_child_Inr
      intro!: threads_update)

lemma set_right_thread_threads:
  assumes "set_right_thread h t i c m = Inr h'" "threads_in C h" "c \<in> C"
  shows "threads_in C h'"
  using assms
  by (auto simp: set_right_thread_def Let_def rbind_eq_Inr modify_Inr upd_child_Inr
      intro!: threads_update)


lemma ign_yc:
  "work_ign (\<lambda>n. (n_y n, n_children n))"
  by (simp add: work_ign_def ign_def)

lemma sim_set_left_thread:
  assumes "sim V C h g" "c \<in> C"
  shows "rel_sum (=) (sim V C) (set_left_thread h t i c m) (set_left_thread g t i c m)"
  using assms(1)
proof (rule sim_step)
  show "rel_sum (=) (list_all2 same_core) (set_left_thread h t i c m) (set_left_thread g t i c m)"
    using set_left_thread_transfer simD(1)[OF assms(1)] by (simp add: rel_fun_def)
  show "map (\<lambda>n. (n_y n, n_children n)) h' = map (\<lambda>n. (n_y n, n_children n)) h \<and>
        threads_in C h'" if "set_left_thread h t i c m = Inr h'" for h'
    using set_left_thread_frame[OF that, of "\<lambda>n. (n_y n, n_children n)"]
      set_left_thread_threads[OF that simD(3)[OF assms(1)] assms(2)]
    by (simp add: work_ignD[OF ign_yc])
  show "map n_y g' = map n_y g" if "set_left_thread g t i c m = Inr g'" for g'
    using that by (rule set_left_thread_frame) (simp_all add: work_ignD[OF ign_y(1)])
qed

lemma sim_set_right_thread:
  assumes "sim V C h g" "c \<in> C"
  shows "rel_sum (=) (sim V C) (set_right_thread h t i c m) (set_right_thread g t i c m)"
  using assms(1)
proof (rule sim_step)
  show "rel_sum (=) (list_all2 same_core) (set_right_thread h t i c m) (set_right_thread g t i c m)"
    using set_right_thread_transfer simD(1)[OF assms(1)] by (simp add: rel_fun_def)
  show "map (\<lambda>n. (n_y n, n_children n)) h' = map (\<lambda>n. (n_y n, n_children n)) h \<and>
        threads_in C h'" if "set_right_thread h t i c m = Inr h'" for h'
    using set_right_thread_frame[OF that, of "\<lambda>n. (n_y n, n_children n)"]
      set_right_thread_threads[OF that simD(3)[OF assms(1)] assms(2)]
    by (simp add: work_ignD[OF ign_yc])
  show "map n_y g' = map n_y g" if "set_right_thread g t i c m = Inr g'" for g'
    using that by (rule set_right_thread_frame) (simp_all add: work_ignD[OF ign_y(1)])
qed

lemma sim_bottom:
  assumes "sim V C h g" "a \<in> V"
  shows "rel_sum (=) (=) (bottom h a) (bottom g a)"
proof (cases "a < length h")
  case True
  with simD(2)[OF assms(1)] assms(2) have "n_y (h ! a) = n_y (g ! a)" by (simp add: agree_y_def)
  moreover from cores_nth[OF simD(1)[OF assms(1)] True] have "n_h (h ! a) = n_h (g ! a)"
    by (simp add: same_core_iff)
  ultimately show ?thesis
    using True cores_length[OF simD(1)[OF assms(1)]] by (simp add: bottom_def get_def)
next
  case False
  then show ?thesis
    using cores_length[OF simD(1)[OF assms(1)]] by (simp add: bottom_def get_def)
qed

lemma sim_get:
  assumes "sim V C h g"
  shows "rel_sum (=) same_core (get h a) (get g a)"
  using get_transfer simD(1)[OF assms] by (simp add: rel_fun_def)

lemma sim_child:
  assumes "sim V C h g"
  shows "rel_sum (=) (=) (child h t i) (child g t i)"
  using child_transfer simD(1)[OF assms] by (simp add: rel_fun_def)

lemma child_in_set:
  "child h t i = Inr c \<Longrightarrow> t < length h \<and> c \<in> set (n_children (h ! t))"
  by (auto simp: child_Inr intro!: nth_mem)

lemma last_child_in_set:
  "last_child h t = Inr c \<Longrightarrow> t < length h \<and> c \<in> set (n_children (h ! t))"
  by (auto simp: last_child_Inr)

lemma child_in_closed:
  assumes "child_closed C h" "t \<in> C" "child h t i = Inr c"
  shows "c \<in> C"
  using assms(1,2) child_in_set[OF assms(3)] by (auto simp: child_closed_def)

lemma next_right_contour_in:
  assumes "threads_in C h" "child_closed C h" "s \<in> C" "next_right_contour h s = Inr (Some b)"
  shows "b \<in> C"
proof (cases "n_children (h ! s) = []")
  case True
  with assms(4) have "s < length h" "n_tr (h ! s) = Some b"
    by (auto simp: next_right_contour_def rbind_eq_Inr)
  with assms(1) show ?thesis by (auto simp: threads_in_def)
next
  case False
  with assms(4) have "last_child h s = Inr b"
    by (auto simp: next_right_contour_def rbind_eq_Inr)
  from last_child_in_set[OF this] assms(2,3) show ?thesis by (auto simp: child_closed_def)
qed

lemma next_left_contour_in:
  assumes "threads_in C h" "child_closed C h" "s \<in> C" "next_left_contour h s = Inr (Some b)"
  shows "b \<in> C"
proof (cases "n_children (h ! s) = []")
  case True
  with assms(4) have "s < length h" "n_tl (h ! s) = Some b"
    by (auto simp: next_left_contour_def rbind_eq_Inr)
  with assms(1) show ?thesis by (auto simp: threads_in_def)
next
  case False
  with assms(4) have "child h s 0 = Inr b"
    by (auto simp: next_left_contour_def rbind_eq_Inr)
  from child_in_set[OF this] assms(2,3) show ?thesis by (auto simp: child_closed_def)
qed

lemma sim_advance_right:
  assumes "sim V C h g" "s \<in> C"
  shows "rel_sum (=) (\<lambda>r r'. r' = r \<and> (\<forall>b. fst r = Some b \<longrightarrow> b \<in> C))
           (advance h (next_right_contour h s) ms) (advance g (next_right_contour g s) ms)"
proof -
  have "rel_sum (=) (=) (advance h (next_right_contour h s) ms)
          (advance g (next_right_contour g s) ms)"
    using advance_transfer next_right_contour_transfer simD(1)[OF assms(1)]
    by (simp add: rel_fun_def)
  then show ?thesis
  proof (rule rel_sum_mono')
    fix v v' :: "ptr \<times> real"
    assume "v = v'" "advance h (next_right_contour h s) ms = Inr v"
    then show "v' = v \<and> (\<forall>b. fst v = Some b \<longrightarrow> b \<in> C)"
      using next_right_contour_in[OF simD(3,4)[OF assms(1)] assms(2)]
      by (cases v) (auto simp: advance_Inr)
  qed
qed

lemma sim_advance_left:
  assumes "sim V C h g" "s \<in> C"
  shows "rel_sum (=) (\<lambda>r r'. r' = r \<and> (\<forall>b. fst r = Some b \<longrightarrow> b \<in> C))
           (advance h (next_left_contour h s) ms) (advance g (next_left_contour g s) ms)"
proof -
  have "rel_sum (=) (=) (advance h (next_left_contour h s) ms)
          (advance g (next_left_contour g s) ms)"
    using advance_transfer next_left_contour_transfer simD(1)[OF assms(1)]
    by (simp add: rel_fun_def)
  then show ?thesis
  proof (rule rel_sum_mono')
    fix v v' :: "ptr \<times> real"
    assume "v = v'" "advance h (next_left_contour h s) ms = Inr v"
    then show "v' = v \<and> (\<forall>b. fst v = Some b \<longrightarrow> b \<in> C)"
      using next_left_contour_in[OF simD(3,4)[OF assms(1)] assms(2)]
      by (cases v) (auto simp: advance_Inr)
  qed
qed

lemma rel_if:
  "(b \<Longrightarrow> rel_sum (=) A x x') \<Longrightarrow> (\<not> b \<Longrightarrow> rel_sum (=) A y y') \<Longrightarrow>
   rel_sum (=) A (if b then x else y) (if b then x' else y')"
  by simp

lemma sim_separate_step:
  assumes "sim V C h g" "s \<in> C" "c \<in> C"
  shows "rel_sum (=) (sim_state V C)
           (separate_step h t i cursor s c mssr mscl) (separate_step g t i cursor s c mssr mscl)"
proof -
  from assms have sv: "s \<in> V" "c \<in> V" using simD(5)[OF assms(1)] by auto
  show ?thesis
    unfolding separate_step_def
  proof (rule rel_rbind[OF sim_bottom[OF assms(1) sv(1)]])
    fix bs bs' :: real assume "bs = bs'"
    then have bs: "bs' = bs" by simp
    show "rel_sum (=) (sim_state V C)
       (let cursor' = dropWhile (\<lambda>e. lowY e < bs) cursor
        in rbind (get h s) (\<lambda>sn. rbind (get h c) (\<lambda>cn.
            let dst = mssr + n_prelim sn + n_w sn + H_SPACING - (mscl + n_prelim cn)
            in rbind (if 0 < dst
                      then move_subtree h t i (case cursor' of [] \<Rightarrow> i - 1 | e # x \<Rightarrow> index e) dst
                      else Inr h)
                (\<lambda>h1. let mscl1 = if 0 < dst then mscl + dst else mscl
                      in rbind (bottom h1 s) (\<lambda>sy. rbind (bottom h1 c) (\<lambda>cy.
                          rbind (if sy \<le> cy then advance h1 (next_right_contour h1 s) mssr
                                 else Inr (Some s, mssr))
                           (\<lambda>(sr', mssr').
                               rbind (if cy \<le> sy then advance h1 (next_left_contour h1 c) mscl1
                                      else Inr (Some c, mscl1))
                                (\<lambda>(cl', mscl').
                                    Inr \<lparr>st_heap = h1, st_cursor = cursor', st_sr = sr', st_cl = cl',
                                         st_mssr = mssr', st_mscl = mscl'\<rparr>))))))))
       (let cursor' = dropWhile (\<lambda>e. lowY e < bs') cursor
        in rbind (get g s) (\<lambda>sn. rbind (get g c) (\<lambda>cn.
            let dst = mssr + n_prelim sn + n_w sn + H_SPACING - (mscl + n_prelim cn)
            in rbind (if 0 < dst
                      then move_subtree g t i (case cursor' of [] \<Rightarrow> i - 1 | e # x \<Rightarrow> index e) dst
                      else Inr g)
                (\<lambda>h1. let mscl1 = if 0 < dst then mscl + dst else mscl
                      in rbind (bottom h1 s) (\<lambda>sy. rbind (bottom h1 c) (\<lambda>cy.
                          rbind (if sy \<le> cy then advance h1 (next_right_contour h1 s) mssr
                                 else Inr (Some s, mssr))
                           (\<lambda>(sr', mssr').
                               rbind (if cy \<le> sy then advance h1 (next_left_contour h1 c) mscl1
                                      else Inr (Some c, mscl1))
                                (\<lambda>(cl', mscl').
                                    Inr \<lparr>st_heap = h1, st_cursor = cursor', st_sr = sr', st_cl = cl',
                                         st_mssr = mssr', st_mscl = mscl'\<rparr>))))))))"
      unfolding Let_def bs
    proof (rule rel_rbind[OF sim_get[OF assms(1)]], rule rel_rbind[OF sim_get[OF assms(1)]])
      fix sn sn' cn cn' assume "same_core sn sn'" "same_core cn cn'"
      then have e: "n_prelim sn' = n_prelim sn" "n_w sn' = n_w sn" "n_prelim cn' = n_prelim cn"
        by (simp_all add: same_core_iff)
      define dst where "dst = mssr + n_prelim sn + n_w sn + H_SPACING - (mscl + n_prelim cn)"
      define cur where "cur = dropWhile (\<lambda>e. lowY e < bs) cursor"
      define si where "si = (case cur of [] \<Rightarrow> i - 1 | e # x \<Rightarrow> index e)"
      define m1 where "m1 = (if 0 < dst then mscl + dst else mscl)"
      have mv: "rel_sum (=) (sim V C) (if 0 < dst then move_subtree h t i si dst else Inr h)
                  (if 0 < dst then move_subtree g t i si dst else Inr g)"
        using assms(1) by (intro rel_if sim_move_subtree) simp_all
      have rest: "rel_sum (=) (sim_state V C)
          (rbind (bottom h1 s) (\<lambda>sy. rbind (bottom h1 c) (\<lambda>cy.
              rbind (if sy \<le> cy then advance h1 (next_right_contour h1 s) mssr
                     else Inr (Some s, mssr))
               (\<lambda>(sr', mssr').
                   rbind (if cy \<le> sy then advance h1 (next_left_contour h1 c) m1
                          else Inr (Some c, m1))
                    (\<lambda>(cl', mscl').
                        Inr \<lparr>st_heap = h1, st_cursor = cur, st_sr = sr', st_cl = cl',
                             st_mssr = mssr', st_mscl = mscl'\<rparr>)))))
          (rbind (bottom g1 s) (\<lambda>sy. rbind (bottom g1 c) (\<lambda>cy.
              rbind (if sy \<le> cy then advance g1 (next_right_contour g1 s) mssr
                     else Inr (Some s, mssr))
               (\<lambda>(sr', mssr').
                   rbind (if cy \<le> sy then advance g1 (next_left_contour g1 c) m1
                          else Inr (Some c, m1))
                    (\<lambda>(cl', mscl').
                        Inr \<lparr>st_heap = g1, st_cursor = cur, st_sr = sr', st_cl = cl',
                             st_mssr = mssr', st_mscl = mscl'\<rparr>)))))"
        if s1: "sim V C h1 g1" for h1 g1
      proof (rule rel_rbind[OF sim_bottom[OF s1 sv(1)]], rule rel_rbind[OF sim_bottom[OF s1 sv(2)]])
        fix sy sy' cy cy' :: real assume "sy = sy'" "cy = cy'"
        then have y: "sy' = sy" "cy' = cy" by simp_all
        let ?R = "\<lambda>r r'. r' = r \<and> (\<forall>b. fst r = Some b \<longrightarrow> b \<in> C)"
        have r: "rel_sum (=) ?R
            (if sy \<le> cy then advance h1 (next_right_contour h1 s) mssr else Inr (Some s, mssr))
            (if sy \<le> cy then advance g1 (next_right_contour g1 s) mssr else Inr (Some s, mssr))"
          using assms(2) by (intro rel_if sim_advance_right[OF s1]) simp_all
        have l: "rel_sum (=) ?R
            (if cy \<le> sy then advance h1 (next_left_contour h1 c) m1 else Inr (Some c, m1))
            (if cy \<le> sy then advance g1 (next_left_contour g1 c) m1 else Inr (Some c, m1))"
          using assms(3) by (intro rel_if sim_advance_left[OF s1]) simp_all
        show "rel_sum (=) (sim_state V C)
          (rbind (if sy \<le> cy then advance h1 (next_right_contour h1 s) mssr
                     else Inr (Some s, mssr))
               (\<lambda>(sr', mssr').
                   rbind (if cy \<le> sy then advance h1 (next_left_contour h1 c) m1
                          else Inr (Some c, m1))
                    (\<lambda>(cl', mscl').
                        Inr \<lparr>st_heap = h1, st_cursor = cur, st_sr = sr', st_cl = cl',
                             st_mssr = mssr', st_mscl = mscl'\<rparr>)))
          (rbind (if sy' \<le> cy' then advance g1 (next_right_contour g1 s) mssr
                     else Inr (Some s, mssr))
               (\<lambda>(sr', mssr').
                   rbind (if cy' \<le> sy' then advance g1 (next_left_contour g1 c) m1
                          else Inr (Some c, m1))
                    (\<lambda>(cl', mscl').
                        Inr \<lparr>st_heap = g1, st_cursor = cur, st_sr = sr', st_cl = cl',
                             st_mssr = mssr', st_mscl = mscl'\<rparr>)))"
          unfolding y
        proof (rule rel_rbind[OF r])
          fix v v' :: "ptr \<times> real" assume v: "v' = v \<and> (\<forall>b. fst v = Some b \<longrightarrow> b \<in> C)"
          show "rel_sum (=) (sim_state V C)
             (case v of (sr', mssr') \<Rightarrow>
                   rbind (if cy \<le> sy then advance h1 (next_left_contour h1 c) m1
                          else Inr (Some c, m1))
                    (\<lambda>(cl', mscl').
                        Inr \<lparr>st_heap = h1, st_cursor = cur, st_sr = sr', st_cl = cl',
                             st_mssr = mssr', st_mscl = mscl'\<rparr>))
             (case v' of (sr', mssr') \<Rightarrow>
                   rbind (if cy \<le> sy then advance g1 (next_left_contour g1 c) m1
                          else Inr (Some c, m1))
                    (\<lambda>(cl', mscl').
                        Inr \<lparr>st_heap = g1, st_cursor = cur, st_sr = sr', st_cl = cl',
                             st_mssr = mssr', st_mscl = mscl'\<rparr>))"
          proof (cases v)
            case (Pair sr' mssr')
            from v Pair have v': "v' = (sr', mssr')" and m: "\<forall>b. sr' = Some b \<longrightarrow> b \<in> C"
              by simp_all
            show ?thesis
              unfolding Pair v' prod.case
            proof (rule rel_rbind[OF l])
              fix w w' :: "ptr \<times> real"
              assume w: "w' = w \<and> (\<forall>b. fst w = Some b \<longrightarrow> b \<in> C)"
              show "rel_sum (=) (sim_state V C)
                 (case w of (cl', mscl') \<Rightarrow>
                    Inr \<lparr>st_heap = h1, st_cursor = cur, st_sr = sr', st_cl = cl',
                         st_mssr = mssr', st_mscl = mscl'\<rparr>)
                 (case w' of (cl', mscl') \<Rightarrow>
                    Inr \<lparr>st_heap = g1, st_cursor = cur, st_sr = sr', st_cl = cl',
                         st_mssr = mssr', st_mscl = mscl'\<rparr>)"
                using w m s1 by (cases w) (simp add: sim_state_def)
            qed
          qed
        qed
      qed
      show "rel_sum (=) (sim_state V C)
        (rbind (if 0 < mssr + n_prelim sn + n_w sn + H_SPACING - (mscl + n_prelim cn)
                then move_subtree h t i
                      (case dropWhile (\<lambda>e. lowY e < bs) cursor of [] \<Rightarrow> i - 1 | e # x \<Rightarrow> index e)
                      (mssr + n_prelim sn + n_w sn + H_SPACING - (mscl + n_prelim cn))
                else Inr h)
          (\<lambda>h1. rbind (bottom h1 s) (\<lambda>sy. rbind (bottom h1 c) (\<lambda>cy.
              rbind (if sy \<le> cy then advance h1 (next_right_contour h1 s) mssr
                     else Inr (Some s, mssr))
               (\<lambda>(sr', mssr').
                   rbind (if cy \<le> sy
                          then advance h1 (next_left_contour h1 c)
                                (if 0 < mssr + n_prelim sn + n_w sn + H_SPACING - (mscl + n_prelim cn)
                                 then mscl + (mssr + n_prelim sn + n_w sn + H_SPACING - (mscl + n_prelim cn))
                                 else mscl)
                          else Inr (Some c,
                                if 0 < mssr + n_prelim sn + n_w sn + H_SPACING - (mscl + n_prelim cn)
                                 then mscl + (mssr + n_prelim sn + n_w sn + H_SPACING - (mscl + n_prelim cn))
                                 else mscl))
                    (\<lambda>(cl', mscl').
                        Inr \<lparr>st_heap = h1, st_cursor = dropWhile (\<lambda>e. lowY e < bs) cursor,
                             st_sr = sr', st_cl = cl', st_mssr = mssr', st_mscl = mscl'\<rparr>))))))
        (rbind (if 0 < mssr + n_prelim sn' + n_w sn' + H_SPACING - (mscl + n_prelim cn')
                then move_subtree g t i
                      (case dropWhile (\<lambda>e. lowY e < bs) cursor of [] \<Rightarrow> i - 1 | e # x \<Rightarrow> index e)
                      (mssr + n_prelim sn' + n_w sn' + H_SPACING - (mscl + n_prelim cn'))
                else Inr g)
          (\<lambda>h1. rbind (bottom h1 s) (\<lambda>sy. rbind (bottom h1 c) (\<lambda>cy.
              rbind (if sy \<le> cy then advance h1 (next_right_contour h1 s) mssr
                     else Inr (Some s, mssr))
               (\<lambda>(sr', mssr').
                   rbind (if cy \<le> sy
                          then advance h1 (next_left_contour h1 c)
                                (if 0 < mssr + n_prelim sn' + n_w sn' + H_SPACING - (mscl + n_prelim cn')
                                 then mscl + (mssr + n_prelim sn' + n_w sn' + H_SPACING - (mscl + n_prelim cn'))
                                 else mscl)
                          else Inr (Some c,
                                if 0 < mssr + n_prelim sn' + n_w sn' + H_SPACING - (mscl + n_prelim cn')
                                 then mscl + (mssr + n_prelim sn' + n_w sn' + H_SPACING - (mscl + n_prelim cn'))
                                 else mscl))
                    (\<lambda>(cl', mscl').
                        Inr \<lparr>st_heap = h1, st_cursor = dropWhile (\<lambda>e. lowY e < bs) cursor,
                             st_sr = sr', st_cl = cl', st_mssr = mssr', st_mscl = mscl'\<rparr>))))))"
        unfolding e dst_def[symmetric] cur_def[symmetric] si_def[symmetric] m1_def[symmetric]
        by (rule rel_rbind[OF mv]) (rule rest)
    qed
  qed
qed

lemma rel_rbind_eq:
  assumes "rel_sum (=) (=) m m'"
    and "\<And>v. m = Inr v \<Longrightarrow> m' = Inr v \<Longrightarrow> rel_sum (=) B (f v) (f' v)"
  shows "rel_sum (=) B (rbind m f) (rbind m' f')"
  using assms by (cases m; cases m') auto

lemma sim_separate_loop:
  "sim_state V C st st' \<Longrightarrow>
   rel_sum (=) (sim_state V C) (separate_loop n t i st) (separate_loop n t i st')"
proof (induction n arbitrary: st st')
  case 0
  then show ?case by (auto simp: sim_state_def split: option.splits)
next
  case (Suc n)
  from Suc.prems have e: "st_sr st' = st_sr st" "st_cl st' = st_cl st"
    "st_cursor st' = st_cursor st" "st_mssr st' = st_mssr st" "st_mscl st' = st_mscl st"
    and s: "sim V C (st_heap st) (st_heap st')"
    by (simp_all add: sim_state_def)
  show ?case
  proof (cases "\<exists>s c. st_sr st = Some s \<and> st_cl st = Some c")
    case False
    with Suc.prems e show ?thesis by (auto split: option.splits)
  next
    case True
    then obtain s c where sc: "st_sr st = Some s" "st_cl st = Some c" by blast
    with Suc.prems have m: "s \<in> C" "c \<in> C" by (simp_all add: sim_state_def)
    have "rel_sum (=) (sim_state V C)
        (rbind (separate_step (st_heap st) t i (st_cursor st) s c (st_mssr st) (st_mscl st))
           (separate_loop n t i))
        (rbind (separate_step (st_heap st') t i (st_cursor st) s c (st_mssr st) (st_mscl st))
           (separate_loop n t i))"
      by (rule rel_rbind[OF sim_separate_step[OF s m]]) (rule Suc.IH)
    with sc e show ?thesis by simp
  qed
qed

lemma sim_separate:
  assumes "sim V C h g"
    and "\<And>c. child h t (i - 1) = Inr c \<Longrightarrow> c \<in> C" "\<And>c. child h t i = Inr c \<Longrightarrow> c \<in> C"
  shows "rel_sum (=) (sim V C) (separate n h t i ih) (separate n g t i ih)"
  unfolding separate_def
proof (rule rel_rbind_eq[OF sim_child[OF assms(1)]], rule rel_rbind[OF sim_get[OF assms(1)]],
    rule rel_rbind_eq[OF sim_child[OF assms(1)]], rule rel_rbind[OF sim_get[OF assms(1)]])
  fix sr :: nat and srn srn' :: node and cl :: nat and cln cln' :: node
  assume a: "child h t (i - 1) = Inr sr" "same_core srn srn'"
    "child h t i = Inr cl" "same_core cln cln'"
  let ?st = "\<lparr>st_heap = h, st_cursor = ih, st_sr = Some sr, st_cl = Some cl,
               st_mssr = n_mod srn, st_mscl = n_mod cln\<rparr>"
  let ?st' = "\<lparr>st_heap = g, st_cursor = ih, st_sr = Some sr, st_cl = Some cl,
               st_mssr = n_mod srn', st_mscl = n_mod cln'\<rparr>"
  have "sim_state V C ?st ?st'"
    using a assms by (simp add: sim_state_def same_core_iff)
  then have l: "rel_sum (=) (sim_state V C) (separate_loop n t i ?st) (separate_loop n t i ?st')"
    by (rule sim_separate_loop)
  show "rel_sum (=) (sim V C)
     (rbind (separate_loop n t i ?st)
       (\<lambda>st. case (st_sr st, st_cl st) of
               (None, None) \<Rightarrow> Inr (st_heap st)
             | (None, Some c) \<Rightarrow> set_left_thread (st_heap st) t i c (st_mscl st)
             | (Some s, None) \<Rightarrow> set_right_thread (st_heap st) t i s (st_mssr st)
             | (Some s, Some a) \<Rightarrow> Inr (st_heap st)))
     (rbind (separate_loop n t i ?st')
       (\<lambda>st. case (st_sr st, st_cl st) of
               (None, None) \<Rightarrow> Inr (st_heap st)
             | (None, Some c) \<Rightarrow> set_left_thread (st_heap st) t i c (st_mscl st)
             | (Some s, None) \<Rightarrow> set_right_thread (st_heap st) t i s (st_mssr st)
             | (Some s, Some a) \<Rightarrow> Inr (st_heap st)))"
  proof (rule rel_rbind[OF l])
    fix st st' assume s: "sim_state V C st st'"
    then have e: "st_sr st' = st_sr st" "st_cl st' = st_cl st"
      "st_mssr st' = st_mssr st" "st_mscl st' = st_mscl st"
      and h: "sim V C (st_heap st) (st_heap st')"
      and m: "\<And>b. st_sr st = Some b \<Longrightarrow> b \<in> C" "\<And>b. st_cl st = Some b \<Longrightarrow> b \<in> C"
      by (simp_all add: sim_state_def)
    show "rel_sum (=) (sim V C)
        (case (st_sr st, st_cl st) of
               (None, None) \<Rightarrow> Inr (st_heap st)
             | (None, Some c) \<Rightarrow> set_left_thread (st_heap st) t i c (st_mscl st)
             | (Some s, None) \<Rightarrow> set_right_thread (st_heap st) t i s (st_mssr st)
             | (Some s, Some a) \<Rightarrow> Inr (st_heap st))
        (case (st_sr st', st_cl st') of
               (None, None) \<Rightarrow> Inr (st_heap st')
             | (None, Some c) \<Rightarrow> set_left_thread (st_heap st') t i c (st_mscl st')
             | (Some s, None) \<Rightarrow> set_right_thread (st_heap st') t i s (st_mssr st')
             | (Some s, Some a) \<Rightarrow> Inr (st_heap st'))"
      unfolding e
      using h m sim_set_left_thread[OF h] sim_set_right_thread[OF h]
      by (auto split: option.splits)
  qed
qed

lemma sim_assign_y:
  assumes "sim V C h g" and "\<And>p. t < length h \<Longrightarrow> n_parent (h ! t) = Some p \<Longrightarrow> p \<in> V"
  shows "rel_sum (=) (sim (V \<union> {t}) C) (assign_y h t) (assign_y g t)"
proof (cases "t < length h")
  case False
  then show ?thesis
    using cores_length[OF simD(1)[OF assms(1)]] by (simp add: assign_y_def get_def)
next
  case True
  note s = simD[OF assms(1)]
  note lg = cores_length[OF s(1)]
  have ct: "same_core (h ! t) (g ! t)" using s(1) True by (rule cores_nth)
  then have pg: "n_parent (g ! t) = n_parent (h ! t)" by (simp add: same_core_iff)
  have upd: "sim (V \<union> {t}) C (h[t := (h ! t)\<lparr>n_y := v, n_yw := Suc (n_yw (h ! t))\<rparr>])
                           (g[t := (g ! t)\<lparr>n_y := v, n_yw := Suc (n_yw (g ! t))\<rparr>])" for v
  proof -
    have "same_core ((h ! t)\<lparr>n_y := v, n_yw := Suc (n_yw (h ! t))\<rparr>)
                    ((g ! t)\<lparr>n_y := v, n_yw := Suc (n_yw (g ! t))\<rparr>)"
      using ct by (simp add: same_core_iff)
    with s(1) have "list_all2 same_core (h[t := (h ! t)\<lparr>n_y := v, n_yw := Suc (n_yw (h ! t))\<rparr>])
                           (g[t := (g ! t)\<lparr>n_y := v, n_yw := Suc (n_yw (g ! t))\<rparr>])"
      by (rule list_all2_update_cong)
    moreover have "agree_y (V \<union> {t}) (h[t := (h ! t)\<lparr>n_y := v, n_yw := Suc (n_yw (h ! t))\<rparr>])
                           (g[t := (g ! t)\<lparr>n_y := v, n_yw := Suc (n_yw (g ! t))\<rparr>])"
      using s(2) True lg by (auto simp: agree_y_def nth_list_update)
    moreover have "threads_in C (h[t := (h ! t)\<lparr>n_y := v, n_yw := Suc (n_yw (h ! t))\<rparr>])"
      using s(3) by (rule threads_update) simp_all
    moreover have "child_closed C (h[t := (h ! t)\<lparr>n_y := v, n_yw := Suc (n_yw (h ! t))\<rparr>])"
      using s(4) by (simp add: child_closed_def children_update)
    ultimately show ?thesis using s(5) by (auto simp: sim_def)
  qed
  show ?thesis
  proof (cases "n_parent (h ! t)")
    case None
    with True lg pg upd[of 0] show ?thesis
      by (simp add: assign_y_def get_def set_y_def modify_def)
  next
    case (Some p)
    show ?thesis
    proof (cases "p < length h")
      case False
      with True lg pg Some show ?thesis
        by (simp add: assign_y_def get_def)
    next
      case p: True
      from assms(2)[OF True Some] have "p \<in> V" .
      with s(2) p have "n_y (g ! p) = n_y (h ! p)" by (simp add: agree_y_def)
      moreover from cores_nth[OF s(1) p] have "n_h (g ! p) = n_h (h ! p)"
        by (simp add: same_core_iff)
      ultimately show ?thesis
        using True lg pg Some p upd[of "n_y (h ! p) + n_h (h ! p) + V_SPACING"]
        by (simp add: assign_y_def get_def set_y_def modify_def)
    qed
  qed
qed

lemma sim_grow:
  assumes "sim V C h g" "C \<subseteq> C'" "C' \<subseteq> V" "child_closed C' h"
  shows "sim V C' h g"
  using assms by (auto simp: sim_def threads_in_def)

lemma tree_children_in:
  "is_tree h par s \<Longrightarrow> a \<in> set (addrs s) \<Longrightarrow> set (n_children (h ! a)) \<subseteq> set (addrs s)"
proof (induction h par s rule: is_tree.induct)
  case (1 h par a0 ts)
  show ?case
  proof (cases "a = a0")
    case True
    with "1.prems" show ?thesis by auto
  next
    case False
    with "1.prems" obtain s' where s': "s' \<in> set ts" "a \<in> set (addrs s')" by auto
    with "1.prems" have "is_tree h (Some a0) s'" by simp
    from "1.IH"[OF s'(1) this s'(2)] s'(1) show ?thesis by auto
  qed
qed

lemma struct_child:
  assumes "map struct h' = map struct h"
  shows "child h' t i = child h t i"
proof (rule child_cong)
  show "map n_children h' = map n_children h"
    using map_eq_nth[OF assms] map_eq_length[OF assms]
    by (auto intro!: nth_equalityI simp: struct_fields)
qed

lemma child_closed_struct:
  "child_closed C h \<Longrightarrow> map struct h' = map struct h \<Longrightarrow> child_closed C h'"
  using map_eq_nth[of struct h' h] map_eq_length[of struct h' h]
  by (auto simp: child_closed_def struct_fields)

lemma child_closed_Un:
  "child_closed A h \<Longrightarrow> child_closed B h \<Longrightarrow> child_closed (A \<union> B) h"
  by (auto simp: child_closed_def)

lemma child_closed_tree: "is_tree h par s \<Longrightarrow> child_closed (set (addrs s)) h"
  using tree_children_in by (auto simp: child_closed_def)

lemma child_closed_trees:
  "\<forall>s \<in> set ts. is_tree h par s \<Longrightarrow> child_closed (\<Union>s \<in> set ts. set (addrs s)) h"
  using tree_children_in by (fastforce simp: child_closed_def)

lemma firstwalk_struct: "firstwalk n h t = Inr h' \<Longrightarrow> map struct h' = map struct h"
  by (erule firstwalk_frame) (rule ign_struct)+

lemma firstwalk_loop_struct:
  "firstwalk_loop n h t i ih = Inr h' \<Longrightarrow> map struct h' = map struct h"
  by (erule firstwalk_loop_frame) (rule ign_struct)+

lemma sim_firstwalk_aux:
  "(\<forall>h g t par s V C. sim V C h g \<longrightarrow> is_tree h par s \<longrightarrow> top s = t \<longrightarrow>
       (\<forall>p. par = Some p \<longrightarrow> p \<in> V) \<longrightarrow>
       rel_sum (=) (sim (V \<union> set (addrs s)) (C \<union> set (addrs s)))
         (firstwalk n h t) (firstwalk n g t)) \<and>
   (\<forall>h g t i ih ts V C. sim V C h g \<longrightarrow> t \<in> V \<longrightarrow> 1 \<le> i \<longrightarrow>
       (\<forall>c. child h t (i - 1) = Inr c \<longrightarrow> c \<in> C) \<longrightarrow>
       drop (nat i) (n_children (h ! t)) = map top ts \<longrightarrow>
       (\<forall>s \<in> set ts. is_tree h (Some t) s) \<longrightarrow>
       rel_sum (=) (sim (V \<union> (\<Union>s \<in> set ts. set (addrs s))) (C \<union> (\<Union>s \<in> set ts. set (addrs s))))
         (firstwalk_loop n h t i ih) (firstwalk_loop n g t i ih))"
proof (induction n)
  case 0
  show ?case by simp
next
  case (Suc n)
  then have fw: "\<And>h g t par s V C. sim V C h g \<Longrightarrow> is_tree h par s \<Longrightarrow> top s = t \<Longrightarrow>
       (\<forall>p. par = Some p \<longrightarrow> p \<in> V) \<Longrightarrow>
       rel_sum (=) (sim (V \<union> set (addrs s)) (C \<union> set (addrs s)))
         (firstwalk n h t) (firstwalk n g t)"
    and fl: "\<And>h g t i ih ts V C. sim V C h g \<Longrightarrow> t \<in> V \<Longrightarrow> 1 \<le> i \<Longrightarrow>
       (\<forall>c. child h t (i - 1) = Inr c \<longrightarrow> c \<in> C) \<Longrightarrow>
       drop (nat i) (n_children (h ! t)) = map top ts \<Longrightarrow>
       (\<forall>s \<in> set ts. is_tree h (Some t) s) \<Longrightarrow>
       rel_sum (=) (sim (V \<union> (\<Union>s \<in> set ts. set (addrs s))) (C \<union> (\<Union>s \<in> set ts. set (addrs s))))
         (firstwalk_loop n h t i ih) (firstwalk_loop n g t i ih)"
    by blast+
  have loop: "rel_sum (=) (sim (V \<union> (\<Union>s \<in> set ts. set (addrs s))) (C \<union> (\<Union>s \<in> set ts. set (addrs s))))
         (firstwalk_loop (Suc n) h t i ih) (firstwalk_loop (Suc n) g t i ih)"
    if s: "sim V C h g" and tv: "t \<in> V" and i: "1 \<le> i"
      and pc: "\<forall>c. child h t (i - 1) = Inr c \<longrightarrow> c \<in> C"
      and dr: "drop (nat i) (n_children (h ! t)) = map top ts"
      and tr: "\<forall>s \<in> set ts. is_tree h (Some t) s"
    for h g t i ih ts V C
    unfolding firstwalk_loop.simps
  proof (rule rel_rbind[OF sim_get[OF s]])
    fix tn tn' assume tn: "same_core tn tn'" "get h t = Inr tn"
    then have t: "t < length h" and tn_eq: "tn = h ! t" by simp_all
    from tn(1) have sz: "n_children tn' = n_children tn" by (simp add: same_core_iff)
    show "rel_sum (=) (sim (V \<union> (\<Union>s \<in> set ts. set (addrs s))) (C \<union> (\<Union>s \<in> set ts. set (addrs s))))
       (if i < int (length (n_children tn))
        then rbind (child h t i) (\<lambda>c. rbind (firstwalk n h c) (\<lambda>h1.
             rbind (child h1 t i) (\<lambda>c'. rbind (bottom h1 c') (\<lambda>minY.
             rbind (separate n h1 t i ih) (\<lambda>h2.
             firstwalk_loop n h2 t (i + 1) (updateIYL minY i ih))))))
        else Inr h)
       (if i < int (length (n_children tn'))
        then rbind (child g t i) (\<lambda>c. rbind (firstwalk n g c) (\<lambda>h1.
             rbind (child h1 t i) (\<lambda>c'. rbind (bottom h1 c') (\<lambda>minY.
             rbind (separate n h1 t i ih) (\<lambda>h2.
             firstwalk_loop n h2 t (i + 1) (updateIYL minY i ih))))))
        else Inr g)"
      unfolding sz
    proof (rule rel_if)
      assume "\<not> i < int (length (n_children tn))"
      with dr i tn_eq have "ts = []" by simp
      with s show "rel_sum (=) (sim (V \<union> (\<Union>s \<in> set ts. set (addrs s)))
          (C \<union> (\<Union>s \<in> set ts. set (addrs s)))) (Inr h) (Inr g)" by simp
    next
      assume lt: "i < int (length (n_children tn))"
      with i tn_eq have k: "nat i < length (n_children (h ! t))" by simp
      from drop_map_top[OF dr k] obtain s1 ts' where
        ts: "ts = s1 # ts'" and s1: "top s1 = n_children (h ! t) ! nat i"
        and dr': "drop (Suc (nat i)) (n_children (h ! t)) = map top ts'"
        by blast
      have ci: "child h t i = Inr (top s1)"
        using t i lt tn_eq s1 by (simp add: child_Inr)
      have t1: "is_tree h (Some t) s1" using tr ts by simp
      let ?A = "set (addrs s1)" and ?U = "\<Union>s \<in> set ts'. set (addrs s)"
      have sets: "V \<union> (\<Union>s \<in> set ts. set (addrs s)) = V \<union> ?A \<union> ?U"
        "C \<union> (\<Union>s \<in> set ts. set (addrs s)) = C \<union> ?A \<union> ?U"
        by (auto simp: ts)
      show "rel_sum (=) (sim (V \<union> (\<Union>s \<in> set ts. set (addrs s)))
          (C \<union> (\<Union>s \<in> set ts. set (addrs s))))
         (rbind (child h t i) (\<lambda>c. rbind (firstwalk n h c) (\<lambda>h1.
             rbind (child h1 t i) (\<lambda>c'. rbind (bottom h1 c') (\<lambda>minY.
             rbind (separate n h1 t i ih) (\<lambda>h2.
             firstwalk_loop n h2 t (i + 1) (updateIYL minY i ih)))))))
         (rbind (child g t i) (\<lambda>c. rbind (firstwalk n g c) (\<lambda>h1.
             rbind (child h1 t i) (\<lambda>c'. rbind (bottom h1 c') (\<lambda>minY.
             rbind (separate n h1 t i ih) (\<lambda>h2.
             firstwalk_loop n h2 t (i + 1) (updateIYL minY i ih)))))))"
        unfolding sets
      proof (rule rel_rbind_eq[OF sim_child[OF s]])
        fix c assume "child h t i = Inr c"
        with ci have c: "c = top s1" by simp
        have w: "rel_sum (=) (sim (V \<union> ?A) (C \<union> ?A)) (firstwalk n h c) (firstwalk n g c)"
          using s t1 by (rule fw) (simp_all add: c tv)
        show "rel_sum (=) (sim (V \<union> ?A \<union> ?U) (C \<union> ?A \<union> ?U))
           (rbind (firstwalk n h c) (\<lambda>h1.
             rbind (child h1 t i) (\<lambda>c'. rbind (bottom h1 c') (\<lambda>minY.
             rbind (separate n h1 t i ih) (\<lambda>h2.
             firstwalk_loop n h2 t (i + 1) (updateIYL minY i ih))))))
           (rbind (firstwalk n g c) (\<lambda>h1.
             rbind (child h1 t i) (\<lambda>c'. rbind (bottom h1 c') (\<lambda>minY.
             rbind (separate n h1 t i ih) (\<lambda>h2.
             firstwalk_loop n h2 t (i + 1) (updateIYL minY i ih))))))"
        proof (rule rel_rbind[OF w])
          fix h1 g1 assume s1': "sim (V \<union> ?A) (C \<union> ?A) h1 g1" and r1: "firstwalk n h c = Inr h1"
          have st1: "map struct h1 = map struct h" using r1 by (rule firstwalk_struct)
          have ch1: "\<And>j. child h1 t j = child h t j" using st1 by (rule struct_child)
          show "rel_sum (=) (sim (V \<union> ?A \<union> ?U) (C \<union> ?A \<union> ?U))
             (rbind (child h1 t i) (\<lambda>c'. rbind (bottom h1 c') (\<lambda>minY.
               rbind (separate n h1 t i ih) (\<lambda>h2.
               firstwalk_loop n h2 t (i + 1) (updateIYL minY i ih)))))
             (rbind (child g1 t i) (\<lambda>c'. rbind (bottom g1 c') (\<lambda>minY.
               rbind (separate n g1 t i ih) (\<lambda>h2.
               firstwalk_loop n h2 t (i + 1) (updateIYL minY i ih)))))"
          proof (rule rel_rbind_eq[OF sim_child[OF s1']])
            fix c' assume "child h1 t i = Inr c'"
            with ch1 ci have c': "c' = top s1" by simp
            have b: "rel_sum (=) (=) (bottom h1 c') (bottom g1 c')"
              using s1' by (rule sim_bottom) (simp add: c')
            show "rel_sum (=) (sim (V \<union> ?A \<union> ?U) (C \<union> ?A \<union> ?U))
               (rbind (bottom h1 c') (\<lambda>minY.
                 rbind (separate n h1 t i ih) (\<lambda>h2.
                 firstwalk_loop n h2 t (i + 1) (updateIYL minY i ih))))
               (rbind (bottom g1 c') (\<lambda>minY.
                 rbind (separate n g1 t i ih) (\<lambda>h2.
                 firstwalk_loop n h2 t (i + 1) (updateIYL minY i ih))))"
            proof (rule rel_rbind_eq[OF b])
              fix minY :: real
              have sp: "rel_sum (=) (sim (V \<union> ?A) (C \<union> ?A)) (separate n h1 t i ih)
                     (separate n g1 t i ih)"
                using s1'
              proof (rule sim_separate)
                show "\<And>x. child h1 t (i - 1) = Inr x \<Longrightarrow> x \<in> C \<union> ?A"
                  using pc ch1 by simp
                show "\<And>x. child h1 t i = Inr x \<Longrightarrow> x \<in> C \<union> ?A"
                  using ci ch1 by simp
              qed
              show "rel_sum (=) (sim (V \<union> ?A \<union> ?U) (C \<union> ?A \<union> ?U))
                 (rbind (separate n h1 t i ih) (\<lambda>h2.
                   firstwalk_loop n h2 t (i + 1) (updateIYL minY i ih)))
                 (rbind (separate n g1 t i ih) (\<lambda>h2.
                   firstwalk_loop n h2 t (i + 1) (updateIYL minY i ih)))"
              proof (rule rel_rbind[OF sp])
                fix h2 g2 assume s2: "sim (V \<union> ?A) (C \<union> ?A) h2 g2"
                  and r2: "separate n h1 t i ih = Inr h2"
                have st2: "map struct h2 = map struct h"
                  using separate_frame[OF r2 ign_struct(1)] st1 by simp
                have ch2: "\<And>j. child h2 t j = child h t j" using st2 by (rule struct_child)
                show "rel_sum (=) (sim (V \<union> ?A \<union> ?U) (C \<union> ?A \<union> ?U))
                   (firstwalk_loop n h2 t (i + 1) (updateIYL minY i ih))
                   (firstwalk_loop n g2 t (i + 1) (updateIYL minY i ih))"
                  using s2
                proof (rule fl)
                  show "t \<in> V \<union> ?A" using tv by simp
                  show "1 \<le> i + 1" using i by simp
                  show "\<forall>x. child h2 t (i + 1 - 1) = Inr x \<longrightarrow> x \<in> C \<union> ?A"
                    using ci ch2 by simp
                  show "drop (nat (i + 1)) (n_children (h2 ! t)) = map top ts'"
                    using dr' i struct_children[OF st2 t] by (simp add: nat_add_distrib)
                  show "\<forall>s \<in> set ts'. is_tree h2 (Some t) s"
                    using tr ts st2 by (auto intro: is_tree_struct)
                qed
              qed
            qed
          qed
        qed
      qed
    qed
  qed
  have walk: "rel_sum (=) (sim (V \<union> set (addrs s)) (C \<union> set (addrs s)))
         (firstwalk (Suc n) h t) (firstwalk (Suc n) g t)"
    if s0: "sim V C h g" and tr: "is_tree h par s" and tp: "top s = t"
      and pv: "\<forall>p. par = Some p \<longrightarrow> p \<in> V"
    for h g t par s V C
  proof -
    obtain a ts where s: "s = Shape a ts" by (cases s)
    with tp have a: "a = t" by simp
    from tr have t: "t < length h" and par: "n_parent (h ! t) = par"
      and cs: "n_children (h ! t) = map top ts"
      and sub: "\<forall>s' \<in> set ts. is_tree h (Some t) s'"
      by (simp_all add: s a)
    have ay: "rel_sum (=) (sim (V \<union> {t}) C) (assign_y h t) (assign_y g t)"
      using s0 by (rule sim_assign_y) (use par pv in simp)
    have wi: "ign n_el_update struct" "ign n_er_update struct" "ign n_msel_update struct"
      "ign n_mser_update struct" "ign n_prelim_update struct"
      using ign_struct(1) by (simp_all add: work_ign_def)
    show ?thesis
      unfolding firstwalk.simps
    proof (rule rel_rbind[OF ay])
      fix h1 g1 assume s1: "sim (V \<union> {t}) C h1 g1" and r1: "assign_y h t = Inr h1"
      have st1: "map struct h1 = map struct h"
        using r1 ign_struct(2) ign_struct(3) by (rule assign_y_frame)
      have l1: "length h1 = length h" using map_eq_length[OF st1] .
      show "rel_sum (=) (sim (V \<union> set (addrs s)) (C \<union> set (addrs s)))
         (rbind (get h1 t) (\<lambda>tn1.
           if n_children tn1 = [] then set_extremes h1 t
           else
             rbind (child h1 t 0) (\<lambda>c0. rbind (firstwalk n h1 c0) (\<lambda>h2.
             rbind (child h2 t 0) (\<lambda>c0'. rbind (bottom h2 c0') (\<lambda>b.
             rbind (firstwalk_loop n h2 t 1 (updateIYL b 0 [])) (\<lambda>h3.
             rbind (position_root h3 t) (\<lambda>h4.
             set_extremes h4 t))))))))
         (rbind (get g1 t) (\<lambda>tn1.
           if n_children tn1 = [] then set_extremes g1 t
           else
             rbind (child g1 t 0) (\<lambda>c0. rbind (firstwalk n g1 c0) (\<lambda>h2.
             rbind (child h2 t 0) (\<lambda>c0'. rbind (bottom h2 c0') (\<lambda>b.
             rbind (firstwalk_loop n h2 t 1 (updateIYL b 0 [])) (\<lambda>h3.
             rbind (position_root h3 t) (\<lambda>h4.
             set_extremes h4 t))))))))"
      proof (rule rel_rbind[OF sim_get[OF s1]])
        fix tn tn' assume tn: "same_core tn tn'" "get h1 t = Inr tn"
        then have tn_eq: "tn = h1 ! t" by simp
        from tn(1) have sz: "n_children tn' = n_children tn" by (simp add: same_core_iff)
        have cs1: "n_children tn = map top ts"
          using struct_children[OF st1 t] cs tn_eq by simp
        show "rel_sum (=) (sim (V \<union> set (addrs s)) (C \<union> set (addrs s)))
           (if n_children tn = [] then set_extremes h1 t
            else
             rbind (child h1 t 0) (\<lambda>c0. rbind (firstwalk n h1 c0) (\<lambda>h2.
             rbind (child h2 t 0) (\<lambda>c0'. rbind (bottom h2 c0') (\<lambda>b.
             rbind (firstwalk_loop n h2 t 1 (updateIYL b 0 [])) (\<lambda>h3.
             rbind (position_root h3 t) (\<lambda>h4.
             set_extremes h4 t)))))))
           (if n_children tn' = [] then set_extremes g1 t
            else
             rbind (child g1 t 0) (\<lambda>c0. rbind (firstwalk n g1 c0) (\<lambda>h2.
             rbind (child h2 t 0) (\<lambda>c0'. rbind (bottom h2 c0') (\<lambda>b.
             rbind (firstwalk_loop n h2 t 1 (updateIYL b 0 [])) (\<lambda>h3.
             rbind (position_root h3 t) (\<lambda>h4.
             set_extremes h4 t)))))))"
          unfolding sz
        proof (rule rel_if)
          assume "n_children tn = []"
          with cs1 have ts: "ts = []" by simp
          have sets: "V \<union> set (addrs s) = V \<union> {t}" "C \<union> set (addrs s) = C \<union> {t}"
            by (simp_all add: s a ts)
          show "rel_sum (=) (sim (V \<union> set (addrs s)) (C \<union> set (addrs s)))
              (set_extremes h1 t) (set_extremes g1 t)"
            unfolding sets
          proof (rule rel_sum_mono'[OF sim_set_extremes[OF s1]])
            fix v v' assume sv: "sim (V \<union> {t}) C v v'" and rv: "set_extremes h1 t = Inr v"
            have stv: "map struct v = map struct h"
              using set_extremes_frame[OF rv wi(1) wi(2) wi(3) wi(4)] st1 by simp
            have "n_children (v ! t) = []"
              using struct_children[OF stv t] cs ts by simp
            then have cc: "child_closed (C \<union> {t}) v"
              using simD(4)[OF sv] by (auto simp: child_closed_def)
            show "sim (V \<union> {t}) (C \<union> {t}) v v'"
              by (rule sim_grow[OF sv _ _ cc]) (use simD(5)[OF sv] in auto)
          qed
        next
          assume ne: "n_children tn \<noteq> []"
          with cs1 obtain s0' ts' where ts: "ts = s0' # ts'" by (cases ts) auto
          let ?A = "set (addrs s0')" and ?U = "\<Union>s \<in> set ts'. set (addrs s)"
          have sets: "V \<union> set (addrs s) = V \<union> {t} \<union> ?A \<union> ?U"
            "C \<union> set (addrs s) = C \<union> ?A \<union> ?U \<union> {t}"
            by (auto simp: s a ts)
          have c0: "child h t 0 = Inr (top s0')"
            using t cs ts by (simp add: child_Inr)
          have t0: "is_tree h1 (Some t) s0'"
            using sub ts st1 by (auto intro: is_tree_struct)
          show "rel_sum (=) (sim (V \<union> set (addrs s)) (C \<union> set (addrs s)))
             (rbind (child h1 t 0) (\<lambda>c0. rbind (firstwalk n h1 c0) (\<lambda>h2.
               rbind (child h2 t 0) (\<lambda>c0'. rbind (bottom h2 c0') (\<lambda>b.
               rbind (firstwalk_loop n h2 t 1 (updateIYL b 0 [])) (\<lambda>h3.
               rbind (position_root h3 t) (\<lambda>h4.
               set_extremes h4 t)))))))
             (rbind (child g1 t 0) (\<lambda>c0. rbind (firstwalk n g1 c0) (\<lambda>h2.
               rbind (child h2 t 0) (\<lambda>c0'. rbind (bottom h2 c0') (\<lambda>b.
               rbind (firstwalk_loop n h2 t 1 (updateIYL b 0 [])) (\<lambda>h3.
               rbind (position_root h3 t) (\<lambda>h4.
               set_extremes h4 t)))))))"
            unfolding sets
          proof (rule rel_rbind_eq[OF sim_child[OF s1]])
            fix c assume "child h1 t 0 = Inr c"
            with c0 struct_child[OF st1, of t 0] have c: "c = top s0'" by simp
            have w: "rel_sum (=) (sim (V \<union> {t} \<union> ?A) (C \<union> ?A))
                (firstwalk n h1 c) (firstwalk n g1 c)"
              using s1 t0 by (rule fw) (simp_all add: c)
            show "rel_sum (=) (sim (V \<union> {t} \<union> ?A \<union> ?U) (C \<union> ?A \<union> ?U \<union> {t}))
               (rbind (firstwalk n h1 c) (\<lambda>h2.
                 rbind (child h2 t 0) (\<lambda>c0'. rbind (bottom h2 c0') (\<lambda>b.
                 rbind (firstwalk_loop n h2 t 1 (updateIYL b 0 [])) (\<lambda>h3.
                 rbind (position_root h3 t) (\<lambda>h4.
                 set_extremes h4 t))))))
               (rbind (firstwalk n g1 c) (\<lambda>h2.
                 rbind (child h2 t 0) (\<lambda>c0'. rbind (bottom h2 c0') (\<lambda>b.
                 rbind (firstwalk_loop n h2 t 1 (updateIYL b 0 [])) (\<lambda>h3.
                 rbind (position_root h3 t) (\<lambda>h4.
                 set_extremes h4 t))))))"
            proof (rule rel_rbind[OF w])
              fix h2 g2 assume s2: "sim (V \<union> {t} \<union> ?A) (C \<union> ?A) h2 g2"
                and r2: "firstwalk n h1 c = Inr h2"
              have st2: "map struct h2 = map struct h"
                using firstwalk_struct[OF r2] st1 by simp
              have ch2: "\<And>j. child h2 t j = child h t j" using st2 by (rule struct_child)
              show "rel_sum (=) (sim (V \<union> {t} \<union> ?A \<union> ?U) (C \<union> ?A \<union> ?U \<union> {t}))
                 (rbind (child h2 t 0) (\<lambda>c0'. rbind (bottom h2 c0') (\<lambda>b.
                   rbind (firstwalk_loop n h2 t 1 (updateIYL b 0 [])) (\<lambda>h3.
                   rbind (position_root h3 t) (\<lambda>h4.
                   set_extremes h4 t)))))
                 (rbind (child g2 t 0) (\<lambda>c0'. rbind (bottom g2 c0') (\<lambda>b.
                   rbind (firstwalk_loop n g2 t 1 (updateIYL b 0 [])) (\<lambda>h3.
                   rbind (position_root h3 t) (\<lambda>h4.
                   set_extremes h4 t)))))"
              proof (rule rel_rbind_eq[OF sim_child[OF s2]])
                fix c' assume "child h2 t 0 = Inr c'"
                with ch2 c0 have c': "c' = top s0'" by simp
                have b: "rel_sum (=) (=) (bottom h2 c') (bottom g2 c')"
                  using s2 by (rule sim_bottom) (simp add: c')
                show "rel_sum (=) (sim (V \<union> {t} \<union> ?A \<union> ?U) (C \<union> ?A \<union> ?U \<union> {t}))
                   (rbind (bottom h2 c') (\<lambda>b.
                     rbind (firstwalk_loop n h2 t 1 (updateIYL b 0 [])) (\<lambda>h3.
                     rbind (position_root h3 t) (\<lambda>h4.
                     set_extremes h4 t))))
                   (rbind (bottom g2 c') (\<lambda>b.
                     rbind (firstwalk_loop n g2 t 1 (updateIYL b 0 [])) (\<lambda>h3.
                     rbind (position_root h3 t) (\<lambda>h4.
                     set_extremes h4 t))))"
                proof (rule rel_rbind_eq[OF b])
                  fix bt :: real
                  have lp: "rel_sum (=) (sim (V \<union> {t} \<union> ?A \<union> ?U) (C \<union> ?A \<union> ?U))
                      (firstwalk_loop n h2 t 1 (updateIYL bt 0 []))
                      (firstwalk_loop n g2 t 1 (updateIYL bt 0 []))"
                    using s2
                  proof (rule fl)
                    show "t \<in> V \<union> {t} \<union> ?A" by simp
                    show "(1::int) \<le> 1" by simp
                    show "\<forall>x. child h2 t (1 - 1) = Inr x \<longrightarrow> x \<in> C \<union> ?A"
                      using c0 ch2 by simp
                    show "drop (nat 1) (n_children (h2 ! t)) = map top ts'"
                      using struct_children[OF st2 t] cs ts by simp
                    show "\<forall>s \<in> set ts'. is_tree h2 (Some t) s"
                      using sub ts st2 by (auto intro: is_tree_struct)
                  qed
                  show "rel_sum (=) (sim (V \<union> {t} \<union> ?A \<union> ?U) (C \<union> ?A \<union> ?U \<union> {t}))
                     (rbind (firstwalk_loop n h2 t 1 (updateIYL bt 0 [])) (\<lambda>h3.
                       rbind (position_root h3 t) (\<lambda>h4.
                       set_extremes h4 t)))
                     (rbind (firstwalk_loop n g2 t 1 (updateIYL bt 0 [])) (\<lambda>h3.
                       rbind (position_root h3 t) (\<lambda>h4.
                       set_extremes h4 t)))"
                  proof (rule rel_rbind[OF lp])
                    fix h3 g3 assume s3: "sim (V \<union> {t} \<union> ?A \<union> ?U) (C \<union> ?A \<union> ?U) h3 g3"
                      and r3: "firstwalk_loop n h2 t 1 (updateIYL bt 0 []) = Inr h3"
                    have st3: "map struct h3 = map struct h"
                      using firstwalk_loop_struct[OF r3] st2 by simp
                    show "rel_sum (=) (sim (V \<union> {t} \<union> ?A \<union> ?U) (C \<union> ?A \<union> ?U \<union> {t}))
                       (rbind (position_root h3 t) (\<lambda>h4. set_extremes h4 t))
                       (rbind (position_root g3 t) (\<lambda>h4. set_extremes h4 t))"
                    proof (rule rel_rbind[OF sim_position_root[OF s3]])
                      fix h4 g4 assume s4: "sim (V \<union> {t} \<union> ?A \<union> ?U) (C \<union> ?A \<union> ?U) h4 g4"
                        and r4: "position_root h3 t = Inr h4"
                      have st4: "map struct h4 = map struct h"
                        using position_root_frame[OF r4 wi(5)] st3 by simp
                      show "rel_sum (=) (sim (V \<union> {t} \<union> ?A \<union> ?U) (C \<union> ?A \<union> ?U \<union> {t}))
                         (set_extremes h4 t) (set_extremes g4 t)"
                      proof (rule rel_sum_mono'[OF sim_set_extremes[OF s4]])
                        fix v v' assume sv: "sim (V \<union> {t} \<union> ?A \<union> ?U) (C \<union> ?A \<union> ?U) v v'"
                          and rv: "set_extremes h4 t = Inr v"
                        have stv: "map struct v = map struct h"
                          using set_extremes_frame[OF rv wi(1) wi(2) wi(3) wi(4)] st4 by simp
                        have "set (n_children (v ! t)) \<subseteq> ?A \<union> ?U"
                          using struct_children[OF stv t] cs ts top_in_addrs by auto
                        then have cc: "child_closed (C \<union> ?A \<union> ?U \<union> {t}) v"
                          using simD(4)[OF sv] by (auto simp: child_closed_def)
                        show "sim (V \<union> {t} \<union> ?A \<union> ?U) (C \<union> ?A \<union> ?U \<union> {t}) v v'"
                          by (rule sim_grow[OF sv _ _ cc]) (use simD(5)[OF sv] in auto)
                      qed
                    qed
                  qed
                qed
              qed
            qed
          qed
        qed
      qed
    qed
  qed
  from loop walk show ?case by blast
qed

lemma simxD:
  assumes "simx X h g"
  shows "list_all2 same_core h g" "agree_x X h g"
  using assms by (simp_all add: simx_def)

lemma cores_get:
  "list_all2 same_core h g \<Longrightarrow> rel_sum (=) same_core (get h a) (get g a)"
  using get_transfer by (simp add: rel_fun_def)

lemma cores_child:
  "list_all2 same_core h g \<Longrightarrow> rel_sum (=) (=) (child h t i) (child g t i)"
  using child_transfer by (simp add: rel_fun_def)

lemma cores_upd_child:
  "list_all2 same_core h g \<Longrightarrow> rel_fun same_core same_core f f' \<Longrightarrow>
   rel_sum (=) (list_all2 same_core) (upd_child h t i f) (upd_child g t i f')"
  using upd_child_transfer by (simp add: rel_fun_def)

lemma simx_set_x:
  assumes "simx X h g"
  shows "rel_sum (=) (simx (X \<union> {t})) (set_x h t v) (set_x g t v)"
proof (cases "t < length h")
  case False
  then show ?thesis
    using cores_length[OF simxD(1)[OF assms]] by (simp add: set_x_def modify_def)
next
  case True
  note c = simxD(1)[OF assms]
  note lg = cores_length[OF c]
  have "list_all2 same_core (h[t := (h ! t)\<lparr>n_x := v, n_xw := Suc (n_xw (h ! t))\<rparr>])
          (g[t := (g ! t)\<lparr>n_x := v, n_xw := Suc (n_xw (g ! t))\<rparr>])"
    using c cores_nth[OF c True] by (intro list_all2_update_cong) (simp_all add: same_core_iff)
  moreover have "agree_x (X \<union> {t}) (h[t := (h ! t)\<lparr>n_x := v, n_xw := Suc (n_xw (h ! t))\<rparr>])
          (g[t := (g ! t)\<lparr>n_x := v, n_xw := Suc (n_xw (g ! t))\<rparr>])"
    using simxD(2)[OF assms] lg True by (auto simp: agree_x_def nth_list_update)
  ultimately show ?thesis
    using True lg by (simp add: set_x_def modify_def simx_def)
qed

lemma cores_add_child_spacing_loop:
  "list_all2 same_core h g \<Longrightarrow>
   rel_sum (=) (list_all2 same_core) (add_child_spacing_loop t js d m h)
     (add_child_spacing_loop t js d m g)"
proof (induction js arbitrary: d m h g)
  case Nil
  then show ?case by simp
next
  case (Cons i js)
  show ?case
    unfolding add_child_spacing_loop.simps
    apply (rule rel_rbind_eq[OF cores_child[OF Cons.prems]])
    apply (rule rel_rbind[OF cores_get[OF Cons.prems]])
    subgoal premises p for c cn cn'
    proof -
      from p have e: "n_shift cn' = n_shift cn" by (simp add: same_core_iff)
      show ?thesis
        unfolding e Let_def
        apply (rule rel_rbind_eq[OF cores_child[OF Cons.prems]])
        apply (rule rel_rbind[OF cores_get[OF Cons.prems]])
        subgoal premises q for c2 cn2 cn2'
        proof -
          from q have e2: "n_change cn2' = n_change cn2" by (simp add: same_core_iff)
          show ?thesis
            unfolding e2
            apply (rule rel_rbind[OF cores_upd_child[OF Cons.prems]])
             apply (simp add: rel_fun_def same_core_iff)
            apply (erule Cons.IH)
            done
        qed
        done
    qed
    done
qed

lemma cores_add_child_spacing:
  assumes "list_all2 same_core h g"
  shows "rel_sum (=) (list_all2 same_core) (add_child_spacing h t) (add_child_spacing g t)"
  unfolding add_child_spacing_def
  apply (rule rel_rbind[OF cores_get[OF assms]])
  subgoal premises p for tn tn'
  proof -
    from p(1) have e: "n_children tn' = n_children tn" by (simp add: same_core_iff)
    show ?thesis unfolding e using assms by (rule cores_add_child_spacing_loop)
  qed
  done

lemma simx_add_child_spacing:
  assumes "simx X h g"
  shows "rel_sum (=) (simx X) (add_child_spacing h t) (add_child_spacing g t)"
proof (rule rel_sum_mono'[OF cores_add_child_spacing[OF simxD(1)[OF assms]]])
  fix v v' assume c: "list_all2 same_core v v'"
    and r: "add_child_spacing h t = Inr v" "add_child_spacing g t = Inr v'"
  have i: "ign n_mod_update n_x" by (simp add: ign_def)
  have x: "map n_x v = map n_x h" "map n_x v' = map n_x g"
    using add_child_spacing_frame[OF r(1) i] add_child_spacing_frame[OF r(2) i] by simp_all
  have "agree_x X v v'"
    using simxD(2)[OF assms] map_eq_nth[OF x(1)] map_eq_nth[OF x(2)]
      map_eq_length[OF x(1)] cores_length[OF simxD(1)[OF assms]]
    by (auto simp: agree_x_def)
  with c show "simx X v v'" by (simp add: simx_def)
qed

lemma simx_secondwalk:
  "simx X h g \<Longrightarrow> is_tree h par s \<Longrightarrow> top s = t \<Longrightarrow>
   rel_sum (=) (simx (X \<union> set (addrs s))) (secondwalk n h t m) (secondwalk n g t m)"
proof (induction n arbitrary: X h g par s t m)
  case 0
  show ?case by simp
next
  case (Suc n)
  obtain a ts where s: "s = Shape a ts" by (cases s)
  with Suc.prems have a: "a = t" by simp
  from Suc.prems(2) have t: "t < length h" and cs: "n_children (h ! t) = map top ts"
    and sub: "\<forall>s' \<in> set ts. is_tree h (Some t) s'"
    by (simp_all add: s a)
  note c = simxD(1)[OF Suc.prems(1)]
  have fe: "rel_sum (=) (simx (Y \<union> (\<Union>s' \<in> set us. set (addrs s'))))
      (for_each (map top us) (\<lambda>c h'. secondwalk n h' c m1) k)
      (for_each (map top us) (\<lambda>c h'. secondwalk n h' c m1) k')"
    if "simx Y k k'" "\<forall>s' \<in> set us. is_tree k (Some t) s'" for Y k k' us m1
    using that
  proof (induction us arbitrary: Y k k')
    case Nil
    then show ?case by simp
  next
    case (Cons u us)
    have w: "rel_sum (=) (simx (Y \<union> set (addrs u)))
        (secondwalk n k (top u) m1) (secondwalk n k' (top u) m1)"
    proof (rule Suc.IH[OF Cons.prems(1)])
      show "is_tree k (Some t) u" using Cons.prems(2) by simp
      show "top u = top u" by simp
    qed
    have sets: "Y \<union> (\<Union>s' \<in> set (u # us). set (addrs s')) =
        Y \<union> set (addrs u) \<union> (\<Union>s' \<in> set us. set (addrs s'))"
      by auto
    show ?case
      unfolding sets list.map for_each.simps
      apply (rule rel_rbind[OF w])
      subgoal premises p for k1 k1'
      proof -
        have "map struct k1 = map struct k" using p(2) by (rule secondwalk_struct)
        then have "\<forall>s' \<in> set us. is_tree k1 (Some t) s'"
          using Cons.prems(2) by (auto intro: is_tree_struct)
        with p(1) show ?thesis by (rule Cons.IH)
      qed
      done
  qed
  show ?case
    unfolding secondwalk.simps Let_def
    apply (rule rel_rbind[OF cores_get[OF c]])
    apply (rule rel_rbind[OF cores_get[OF c]])
    subgoal premises p for tn tn' tn1 tn1'
    proof -
      from p have e: "n_mod tn' = n_mod tn" "n_prelim tn1' = n_prelim tn1"
        by (simp_all add: same_core_iff)
      show ?thesis
        unfolding e
        apply (rule rel_rbind[OF simx_set_x[OF Suc.prems(1)]])
        subgoal premises q for h1 g1
        proof -
          have st1: "map struct h1 = map struct h"
            using q(2) ign_struct(4) ign_struct(5) by (rule set_x_frame)
          show ?thesis
            apply (rule rel_rbind[OF simx_add_child_spacing[OF q(1)]])
            subgoal premises r for h2 g2
            proof -
              have i: "ign n_mod_update struct" by (simp add: ign_def struct_def)
              have st2: "map struct h2 = map struct h"
                using add_child_spacing_frame[OF r(2) i] st1 by simp
              show ?thesis
                apply (rule rel_rbind[OF cores_get[OF simxD(1)[OF r(1)]]])
                subgoal premises u for tn2 tn2'
                proof -
                  from u(1) have e2: "n_children tn2' = n_children tn2"
                    by (simp add: same_core_iff)
                  from u(2) have "tn2 = h2 ! t" by simp
                  then have e3: "n_children tn2 = map top ts"
                    using struct_children[OF st2 t] cs by simp
                  have sets: "X \<union> set (addrs s) = X \<union> {t} \<union> (\<Union>s' \<in> set ts. set (addrs s'))"
                    by (auto simp: s a)
                  have "\<forall>s' \<in> set ts. is_tree h2 (Some t) s'"
                    using sub st2 by (auto intro: is_tree_struct)
                  with r(1) show ?thesis
                    unfolding e2 e3 sets by (rule fe)
                qed
                done
            qed
            done
        qed
        done
    qed
    done
qed

lemma reset_cores:
  assumes "\<forall>a < length h. neutral (h ! a) a" and "map struct h1 = map struct h"
  shows "list_all2 same_core h (reset h1)"
proof -
  have l: "length h1 = length h" using assms(2) by (rule map_eq_length)
  have "same_core (h ! a) (reset h1 ! a)" if "a < length h" for a
    using that assms(1) map_eq_nth[OF assms(2) that] l
    by (simp add: reset_def nth_enumerate_eq same_core_iff neutral_def struct_fields)
  with l show ?thesis by (simp add: list_all2_conv_all_nth reset_def)
qed

lemma pair_neutral: "\<forall>a < length pair_heap. neutral (pair_heap ! a) a"
  by (simp add: pair_heap_def fresh_def neutral_def less_Suc_eq numeral_3_eq_3)

lemma pair_nodes:
  "length pair_heap = 3"
  "neutral (pair_heap ! 0) 0" "neutral (pair_heap ! 1) 1" "neutral (pair_heap ! 2) 2"
  by (simp_all add: pair_heap_def fresh_def neutral_def)

text \<open>
  C8: take a store of freshly constructed nodes (working fields neutral) that holds a tree,
  and a run of \<^verbatim>\<open>layout\<close> on it that returns. Resetting the working fields of every node
  of the result to their neutral values, with \<open>w\<close>, \<open>h\<close>, \<open>children\<close> and \<open>parent\<close> (and the
  \<open>x\<close> and \<open>y\<close> of the first run) left as they are, and running \<^verbatim>\<open>layout\<close> again, the
  second run returns too and gives every node of the tree the \<open>x\<close> and \<open>y\<close> of the first run.
\<close>

theorem layout_idempotent:
  assumes "is_tree h None s" and "\<forall>a < length h. neutral (h ! a) a"
    and "layout fuel h (top s) = Inr h1"
  shows "\<exists>h2. layout fuel (reset h1) (top s) = Inr h2 \<and>
           (\<forall>a \<in> set (addrs s). n_x (h2 ! a) = n_x (h1 ! a) \<and> n_y (h2 ! a) = n_y (h1 ! a))"
proof -
  let ?A = "set (addrs s)"
  from assms(3) obtain hf where 1: "firstwalk fuel h (top s) = Inr hf"
    and 2: "secondwalk fuel hf (top s) 0 = Inr h1"
    by (auto simp: layout_Inr)
  have stf: "map struct hf = map struct h" using 1 by (rule firstwalk_struct)
  have st1: "map struct h1 = map struct h" using secondwalk_struct[OF 2] stf by simp
  have c0: "list_all2 same_core h (reset h1)" using assms(2) st1 by (rule reset_cores)
  have "threads_in {} h" using assms(2) by (simp add: threads_in_def neutral_def)
  with c0 have s0: "sim {} {} h (reset h1)"
    by (simp add: sim_def agree_y_def child_closed_def)
  have "rel_sum (=) (sim ({} \<union> ?A) ({} \<union> ?A)) (firstwalk fuel h (top s))
      (firstwalk fuel (reset h1) (top s))"
    using sim_firstwalk_aux[of fuel] s0 assms(1) by blast
  with 1 obtain gf where g1: "firstwalk fuel (reset h1) (top s) = Inr gf"
    and sf: "sim ?A ?A hf gf"
    by (cases "firstwalk fuel (reset h1) (top s)") auto
  have trf: "is_tree hf None s" using assms(1) stf by (rule is_tree_struct)
  have "simx {} hf gf" using simD(1)[OF sf] by (simp add: simx_def agree_x_def)
  then have "rel_sum (=) (simx ({} \<union> ?A)) (secondwalk fuel hf (top s) 0)
      (secondwalk fuel gf (top s) 0)"
    using trf refl by (rule simx_secondwalk)
  with 2 obtain h2 where g2: "secondwalk fuel gf (top s) 0 = Inr h2"
    and sx: "simx ?A h1 h2"
    by (cases "secondwalk fuel gf (top s) 0") auto
  have iy: "ign n_mod_update n_y" "ign n_x_update n_y" "ign n_xw_update n_y"
    by (simp_all add: ign_def)
  have y1: "map n_y h1 = map n_y hf" using secondwalk_frame[OF iy 2] .
  have y2: "map n_y h2 = map n_y gf" using secondwalk_frame[OF iy g2] .
  have lf: "length hf = length h" using stf by (rule map_eq_length)
  have l1: "length h1 = length h" using st1 by (rule map_eq_length)
  have lg: "length gf = length hf" using simD(1)[OF sf] by (rule cores_length)
  have "n_x (h2 ! a) = n_x (h1 ! a) \<and> n_y (h2 ! a) = n_y (h1 ! a)" if a: "a \<in> ?A" for a
  proof -
    have v: "a < length h" using assms(1) a by (rule is_tree_valid)
    have "n_x (h1 ! a) = n_x (h2 ! a)"
      using simxD(2)[OF sx] a v l1 by (simp add: agree_x_def)
    moreover have "n_y (hf ! a) = n_y (gf ! a)"
      using simD(2)[OF sf] a v lf by (simp add: agree_y_def)
    moreover have "n_y (h1 ! a) = n_y (hf ! a)" using map_eq_nth[OF y1] v lf by simp
    moreover have "n_y (h2 ! a) = n_y (gf ! a)" using map_eq_nth[OF y2] v lf lg by simp
    ultimately show ?thesis by simp
  qed
  moreover have "layout fuel (reset h1) (top s) = Inr h2"
    using g1 g2 by (auto simp: layout_Inr)
  ultimately show ?thesis by blast
qed

theorem layout_idempotent_witness:
  "is_tree pair_heap None pair_shape \<and> length pair_heap = 3 \<and>
   neutral (pair_heap ! 0) 0 \<and> neutral (pair_heap ! 1) 1 \<and> neutral (pair_heap ! 2) 2 \<and>
   layout 5 pair_heap (top pair_shape) = Inr pair_result \<and>
   (\<exists>h2. layout 5 (reset pair_result) (top pair_shape) = Inr h2 \<and>
      n_x (h2 ! 0) = 15 \<and> n_x (h2 ! 1) = 0 \<and> n_x (h2 ! 2) = 30 \<and>
      n_y (h2 ! 0) = 0 \<and> n_y (h2 ! 1) = 30 \<and> n_y (h2 ! 2) = 30)"
  using layout_idempotent[OF pair_tree(1) pair_neutral pair_layout] pair_tree(1) pair_nodes
    pair_layout
  by (auto simp: pair_shape_def pair_result_def pair_walked_def fresh_def V_SPACING_def)

section \<open>The top-down pass folds shift and change before it visits a child\<close>

lemma rbind_assoc: "rbind (rbind m f) g = rbind m (\<lambda>x. rbind (f x) g)"
  by (cases m) (simp_all add: rbind_def)

lemma for_each_append:
  "for_each (xs @ ys) f h = rbind (for_each xs f h) (for_each ys f)"
proof (induction xs arbitrary: h)
  case Nil
  show ?case by (simp add: rbind_def)
next
  case (Cons x xs)
  show ?case by (cases "f x h") (simp_all add: Cons.IH rbind_def)
qed

lemma for_each_tree_inv:
  assumes "for_each (map top ts) f h = Inr h'" and "\<forall>s \<in> set ts. is_tree h (Some t) s"
    and step: "\<And>s' k k'. s' \<in> set ts \<Longrightarrow> is_tree k (Some t) s' \<Longrightarrow> f (top s') k = Inr k' \<Longrightarrow>
           map struct k' = map struct k \<and> R k k'"
    and rfl: "\<And>k. R k k" and trans: "\<And>a b c. R a b \<Longrightarrow> R b c \<Longrightarrow> R a c"
  shows "R h h'"
  using assms(1,2,3)
proof (induction ts arbitrary: h)
  case Nil
  then show ?case by (simp add: rfl)
next
  case (Cons s ts)
  from Cons.prems(1) obtain h1 where 1: "f (top s) h = Inr h1" and
    2: "for_each (map top ts) f h1 = Inr h'"
    by (auto simp: rbind_eq_Inr)
  have "map struct h1 = map struct h \<and> R h h1"
  proof (rule Cons.prems(3)[OF _ _ 1])
    show "s \<in> set (s # ts)" by simp
    show "is_tree h (Some t) s" using Cons.prems(2) by simp
  qed
  then have st: "map struct h1 = map struct h" and r1: "R h h1" by simp_all
  have "R h1 h'"
    using 2
  proof (rule Cons.IH)
    show "\<forall>s \<in> set ts. is_tree h1 (Some t) s"
      using Cons.prems(2) st by (auto intro: is_tree_struct)
    show "map struct k' = map struct k \<and> R k k'"
      if "s' \<in> set ts" "is_tree k (Some t) s'" "f (top s') k = Inr k'" for s' k k'
      using Cons.prems(3)[OF _ that(2,3)] that(1) by simp
  qed
  with r1 show ?case by (rule trans)
qed

lemma secondwalk_mod_frame:
  "secondwalk n h t m = Inr h' \<Longrightarrow> is_tree h par s \<Longrightarrow> top s = t \<Longrightarrow>
   a \<notin> set (concat (map addrs (subs s))) \<Longrightarrow> n_mod (h' ! a) = n_mod (h ! a)"
proof (induction n arbitrary: h t m h' par s)
  case 0
  then show ?case by simp
next
  case (Suc n)
  obtain ts where s: "s = Shape t ts" using Suc.prems(3) by (cases s) simp
  from Suc.prems(2) s have t: "t < length h" and cs: "n_children (h ! t) = map top ts"
    by simp_all
  from Suc.prems(1) obtain h1 h2 v m1 where
    1: "set_x h t v = Inr h1" and
    2: "add_child_spacing h1 t = Inr h2" and
    3: "for_each (n_children (h2 ! t)) (\<lambda>c h'. secondwalk n h' c m1) h2 = Inr h'"
    by (auto simp: rbind_eq_Inr Let_def)
  have s1: "map struct h1 = map struct h"
    using 1 by (rule set_x_frame) (simp_all add: ign_struct)
  have s2: "map struct h2 = map struct h1"
    using 2 by (rule add_child_spacing_frame) (simp add: work_ignD[OF ign_struct(1)])
  have st: "map struct h2 = map struct h" using s1 s2 by simp
  have l1: "length h1 = length h" using s1 by (rule map_eq_length)
  have m1: "n_mod (h1 ! a) = n_mod (h ! a)"
  proof (cases "a < length h")
    case True
    have "map n_mod h1 = map n_mod h" using 1 by (rule set_x_frame) (simp_all add: ign_def)
    from map_eq_nth[OF this True] show ?thesis .
  next
    case False
    with 1 show ?thesis by (auto simp: set_x_def modify_Inr)
  qed
  have na: "a \<notin> set (map top ts)"
    using Suc.prems(4) s by (auto simp: image_iff)
  have cs1: "n_children (h1 ! t) = map top ts"
    using struct_children[OF s1 t] cs by simp
  from 2 have l: "add_child_spacing_loop t (map int [0 ..< length (n_children (h1 ! t))]) 0 0 h1
      = Inr h2"
    by (auto simp: add_child_spacing_def rbind_eq_Inr)
  have "h2 ! a = h1 ! a"
    using l
  proof (rule add_child_spacing_loop_other)
    show "t < length h1" using t l1 by simp
    show "\<forall>i \<in> set (map int [0 ..< length (n_children (h1 ! t))]). n_children (h1 ! t) ! nat i \<noteq> a"
      using na unfolding cs1 by (auto simp: image_iff)
  qed
  then have m2: "n_mod (h2 ! a) = n_mod (h ! a)" using m1 by simp
  have cs2: "n_children (h2 ! t) = map top ts"
    using struct_children[OF st t] cs by simp
  have "n_mod (h' ! a) = n_mod (h2 ! a)"
  proof (rule for_each_tree_inv[where f = "\<lambda>c h'. secondwalk n h' c m1" and t = t and ts = ts
        and R = "\<lambda>k k'. n_mod (k' ! a) = n_mod (k ! a)"])
    show "for_each (map top ts) (\<lambda>c h'. secondwalk n h' c m1) h2 = Inr h'"
      using 3 cs2 by simp
    show "\<forall>s \<in> set ts. is_tree h2 (Some t) s"
      using Suc.prems(2) s st by (auto intro: is_tree_struct)
    show "map struct k' = map struct k \<and> n_mod (k' ! a) = n_mod (k ! a)"
      if "s' \<in> set ts" "is_tree k (Some t) s'" "secondwalk n k (top s') m1 = Inr k'" for s' k k'
    proof -
      have "set (concat (map addrs (subs s'))) \<subseteq> set (addrs s')" by (cases s') auto
      with Suc.prems(4) s that(1) have "a \<notin> set (concat (map addrs (subs s')))" by auto
      from Suc.IH[OF that(3,2) refl this] secondwalk_struct[OF that(3)] show ?thesis by simp
    qed
  qed simp_all
  with m2 show ?case by simp
qed

lemma distinct_tops: "distinct (concat (map addrs ts)) \<Longrightarrow> distinct (map top ts)"
proof (induction ts)
  case Nil
  then show ?case by simp
next
  case (Cons s ts)
  have "top s \<notin> top ` set ts"
  proof
    assume "top s \<in> top ` set ts"
    then obtain s' where "s' \<in> set ts" "top s' = top s" by auto
    then have "top s \<in> set (concat (map addrs ts))" using top_in_addrs[of s'] by auto
    moreover from Cons.prems have "set (addrs s) \<inter> set (concat (map addrs ts)) = {}" by simp
    ultimately show False using top_in_addrs[of s] by blast
  qed
  with Cons show ?case by simp
qed


lemma tops_apart:
  assumes "distinct (concat (map addrs ts))" "j < k" "k < length ts"
  shows "top (ts ! k) \<notin> set (addrs (ts ! j))"
proof -
  have "ts = take k ts @ ts ! k # drop (Suc k) ts"
    using assms(3) by (simp add: id_take_nth_drop)
  then have "distinct (concat (map addrs (take k ts @ ts ! k # drop (Suc k) ts)))"
    using assms(1) by simp
  then have "set (concat (map addrs (take k ts))) \<inter> set (addrs (ts ! k)) = {}"
    by auto
  moreover have "ts ! j \<in> set (take k ts)"
    using assms(2,3) by (auto simp: in_set_conv_nth intro!: exI[of _ j])
  ultimately show ?thesis using top_in_addrs[of "ts ! k"] by auto
qed

lemma spread_secondwalk: "secondwalk (Suc 2) spread_heap 0 0 = Inr spread_walked"
  by code_simp

lemma spread_tree:
  "is_tree spread_heap None tall_sibling_shape" "top tall_sibling_shape = 0"
  "distinct (addrs tall_sibling_shape)"
  by code_simp+

text \<open>
  C4 (amended): \<^verbatim>\<open>secondwalk\<close> on a node \<open>t\<close> of a tree assigns \<open>x\<close>, then runs
  \<^verbatim>\<open>add_child_spacing\<close> on \<open>t\<close>, and only then visits the children, in order. In the
  store \<open>g\<close> in which the pass visits child \<open>k\<close>, the \<open>shift\<close> and \<open>change\<close> of the
  children have been folded into the \<open>mod\<close> of child \<open>k\<close> (it has received the sum, over
  \<open>j \<le> k\<close>, of the running total of \<open>shift\<close> up to \<open>j\<close> plus the \<open>change\<close> of child
  \<open>j\<close>), and its \<open>shift\<close> and \<open>change\<close> are not reset: they have the values they had
  before, as has every \<open>shift\<close> and \<open>change\<close> of the store when the pass returns.
\<close>

theorem secondwalk_folds_then_visits:
  assumes "secondwalk (Suc n) h t m = Inr h'" and "is_tree h par s" and "top s = t"
    and "distinct (addrs s)"
  defines "cs \<equiv> n_children (h ! t)"
  defines "visit \<equiv> (\<lambda>c k. secondwalk n k c (m + n_mod (h ! t)))"
  shows "\<exists>h1 h2. set_x h t (n_prelim (h ! t) + (m + n_mod (h ! t))) = Inr h1 \<and>
           add_child_spacing h1 t = Inr h2 \<and>
           (\<forall>k < length cs. \<exists>g g'.
              for_each (take k cs) visit h2 = Inr g \<and> visit (cs ! k) g = Inr g' \<and>
              for_each (drop (Suc k) cs) visit g' = Inr h' \<and>
              n_mod (g ! (cs ! k)) = n_mod (h ! (cs ! k)) +
                 (\<Sum>j \<le> k. (\<Sum>l \<le> j. n_shift (h ! (cs ! l))) + n_change (h ! (cs ! j))) \<and>
              n_shift (g ! (cs ! k)) = n_shift (h ! (cs ! k)) \<and>
              n_change (g ! (cs ! k)) = n_change (h ! (cs ! k))) \<and>
         map n_shift h' = map n_shift h \<and> map n_change h' = map n_change h"
proof -
  obtain ts where s: "s = Shape t ts" using assms(3) by (cases s) simp
  from assms(2) s have t: "t < length h" and cs: "cs = map top ts"
    and sub: "\<forall>s' \<in> set ts. is_tree h (Some t) s'"
    by (simp_all add: cs_def)
  from assms(4) s have dts: "distinct (concat (map addrs ts))" by simp
  from assms(1) t obtain h1 h2 where
    1: "set_x h t (n_prelim (h ! t) + (m + n_mod (h ! t))) = Inr h1" and
    2: "add_child_spacing h1 t = Inr h2" and
    3: "for_each (n_children (h2 ! t)) visit h2 = Inr h'"
    by (auto simp: rbind_eq_Inr Let_def get_Inr visit_def)
  have s1: "map struct h1 = map struct h"
    using 1 by (rule set_x_frame) (simp_all add: ign_struct)
  have s2: "map struct h2 = map struct h1"
    using 2 by (rule add_child_spacing_frame) (simp add: work_ignD[OF ign_struct(1)])
  have st: "map struct h2 = map struct h" using s1 s2 by simp
  have l1: "length h1 = length h" using s1 by (rule map_eq_length)
  have cs1: "n_children (h1 ! t) = cs"
    using struct_children[OF s1 t] by (simp add: cs_def)
  have cs2: "n_children (h2 ! t) = cs"
    using struct_children[OF st t] by (simp add: cs_def)
  have f1: "map n_mod h1 = map n_mod h" "map n_shift h1 = map n_shift h"
    "map n_change h1 = map n_change h"
    using set_x_frame[OF 1, of n_mod] set_x_frame[OF 1, of n_shift] set_x_frame[OF 1, of n_change]
    by (simp_all add: ign_def)
  have valid: "c < length h" if "c \<in> set cs" for c
  proof -
    from that cs obtain s' where "s' \<in> set ts" "c = top s'" by auto
    with sub is_tree_top[of h "Some t" s'] show ?thesis by simp
  qed
  have e1: "n_mod (h1 ! c) = n_mod (h ! c)" "n_shift (h1 ! c) = n_shift (h ! c)"
    "n_change (h1 ! c) = n_change (h ! c)" if "c \<in> set cs" for c
    using map_eq_nth[OF f1(1) valid[OF that]] map_eq_nth[OF f1(2) valid[OF that]]
      map_eq_nth[OF f1(3) valid[OF that]] by simp_all
  have dcs: "distinct cs" unfolding cs using dts by (rule distinct_tops)
  note eff = add_child_spacing_effect[OF 2, unfolded cs1, OF dcs]
  have sc2: "map n_shift h2 = map n_shift h" "map n_change h2 = map n_change h"
    using eff f1 by simp_all
  have fold: "n_mod (h2 ! (cs ! k)) = n_mod (h ! (cs ! k)) +
      (\<Sum>j \<le> k. (\<Sum>l \<le> j. n_shift (h ! (cs ! l))) + n_change (h ! (cs ! j)))"
    if k: "k < length cs" for k
  proof -
    have "(\<Sum>j \<le> k. (\<Sum>l \<le> j. n_shift (h1 ! (cs ! l))) + n_change (h1 ! (cs ! j))) =
        (\<Sum>j \<le> k. (\<Sum>l \<le> j. n_shift (h ! (cs ! l))) + n_change (h ! (cs ! j)))"
    proof (rule sum.cong[OF refl])
      fix j assume j: "j \<in> {..k}"
      have "(\<Sum>l \<le> j. n_shift (h1 ! (cs ! l))) = (\<Sum>l \<le> j. n_shift (h ! (cs ! l)))"
        by (rule sum.cong[OF refl]) (use j k in \<open>simp add: e1\<close>)
      then show "(\<Sum>l \<le> j. n_shift (h1 ! (cs ! l))) + n_change (h1 ! (cs ! j)) =
          (\<Sum>l \<le> j. n_shift (h ! (cs ! l))) + n_change (h ! (cs ! j))"
        using j k by (simp add: e1)
    qed
    with eff k show ?thesis by (simp add: e1)
  qed
  have sc: "map n_shift h' = map n_shift h" "map n_change h' = map n_change h"
    using secondwalk_keeps_shift_change[OF assms(1)] by simp_all
  have tr2: "\<forall>s' \<in> set ts. is_tree h2 (Some t) s'"
    using sub st by (auto intro: is_tree_struct)
  have each: "\<exists>g g'.
      for_each (take k cs) visit h2 = Inr g \<and> visit (cs ! k) g = Inr g' \<and>
      for_each (drop (Suc k) cs) visit g' = Inr h' \<and>
      n_mod (g ! (cs ! k)) = n_mod (h ! (cs ! k)) +
         (\<Sum>j \<le> k. (\<Sum>l \<le> j. n_shift (h ! (cs ! l))) + n_change (h ! (cs ! j))) \<and>
      n_shift (g ! (cs ! k)) = n_shift (h ! (cs ! k)) \<and>
      n_change (g ! (cs ! k)) = n_change (h ! (cs ! k))"
    if k: "k < length cs" for k
  proof -
    have split: "cs = take k cs @ cs ! k # drop (Suc k) cs"
      using k by (simp add: id_take_nth_drop)
    have "for_each (take k cs @ cs ! k # drop (Suc k) cs) visit h2 = Inr h'"
      using 3 cs2 split by simp
    then obtain g g' where g: "for_each (take k cs) visit h2 = Inr g"
      and g': "visit (cs ! k) g = Inr g'"
      and r: "for_each (drop (Suc k) cs) visit g' = Inr h'"
      by (auto simp: for_each_append rbind_eq_Inr)
    have tk: "take k cs = map top (take k ts)" by (simp add: cs take_map)
    have kl: "k < length ts" using k cs by simp
    have md: "n_mod (g ! (cs ! k)) = n_mod (h2 ! (cs ! k))"
    proof (rule for_each_tree_inv[where f = visit and t = t and ts = "take k ts"
          and R = "\<lambda>a b. n_mod (b ! (cs ! k)) = n_mod (a ! (cs ! k))"])
      show "for_each (map top (take k ts)) visit h2 = Inr g" using g tk by simp
      show "\<forall>s' \<in> set (take k ts). is_tree h2 (Some t) s'"
        using tr2 by (auto dest: in_set_takeD)
      show "map struct k' = map struct k0 \<and> n_mod (k' ! (cs ! k)) = n_mod (k0 ! (cs ! k))"
        if "s' \<in> set (take k ts)" "is_tree k0 (Some t) s'" "visit (top s') k0 = Inr k'"
        for s' k0 k'
      proof -
        from that(1) obtain j where j: "j < k" "s' = ts ! j"
          by (auto simp: in_set_conv_nth)
        have "top (ts ! k) \<notin> set (addrs s')"
          using tops_apart[OF dts j(1) kl] j(2) by simp
        moreover have "set (concat (map addrs (subs s'))) \<subseteq> set (addrs s')"
          by (cases s') auto
        ultimately have "cs ! k \<notin> set (concat (map addrs (subs s')))"
          using kl by (auto simp: cs)
        from secondwalk_mod_frame[OF that(3)[unfolded visit_def] that(2) refl this]
          secondwalk_struct[OF that(3)[unfolded visit_def]]
        show ?thesis by simp
      qed
    qed simp_all
    have fr: "map n_shift g = map n_shift h2" "map n_change g = map n_change h2"
      using for_each_frame[OF g, of n_shift] for_each_frame[OF g, of n_change]
        secondwalk_keeps_shift_change
      by (simp_all add: visit_def)
    have v: "cs ! k < length h" using k by (simp add: valid)
    have "n_shift (g ! (cs ! k)) = n_shift (h ! (cs ! k))"
      using map_eq_nth[OF fr(1)] map_eq_nth[OF sc2(1) v] map_eq_length[OF sc2(1)] v by simp
    moreover have "n_change (g ! (cs ! k)) = n_change (h ! (cs ! k))"
      using map_eq_nth[OF fr(2)] map_eq_nth[OF sc2(2) v] map_eq_length[OF sc2(2)] v by simp
    ultimately show ?thesis using g g' r md fold[OF k] by auto
  qed
  from 1 2 each sc show ?thesis by blast
qed

theorem secondwalk_folds_then_visits_witness:
  "secondwalk (Suc 2) spread_heap 0 0 = Inr spread_walked \<and>
   is_tree spread_heap None tall_sibling_shape \<and> top tall_sibling_shape = 0 \<and>
   distinct (addrs tall_sibling_shape) \<and>
   (\<exists>g g'. secondwalk 2 g 2 0 = Inr g' \<and> n_mod (g ! 2) = 15 \<and> n_shift (g ! 2) = 15) \<and>
   map n_shift spread_walked = map n_shift spread_heap \<and>
   map n_change spread_walked = map n_change spread_heap"
proof -
  have c: "n_children (spread_heap ! 0) = [1, 2, 3]" "n_mod (spread_heap ! 0) = 0"
    "n_mod (spread_heap ! 2) = 0" "n_shift (spread_heap ! Suc 0) = 0"
    "n_change (spread_heap ! Suc 0) = 0"
    "n_shift (spread_heap ! 2) = 15" "n_change (spread_heap ! 2) = 0"
    by (simp_all add: spread_heap_def tall_sibling_heap_def fresh_def)
  from secondwalk_folds_then_visits[OF spread_secondwalk spread_tree] obtain h1 h2 where
    a: "\<forall>k < length (n_children (spread_heap ! 0)). \<exists>g g'.
          for_each (take k (n_children (spread_heap ! 0)))
            (\<lambda>c k. secondwalk 2 k c (0 + n_mod (spread_heap ! 0))) h2 = Inr g \<and>
          secondwalk 2 g (n_children (spread_heap ! 0) ! k) (0 + n_mod (spread_heap ! 0)) = Inr g' \<and>
          for_each (drop (Suc k) (n_children (spread_heap ! 0)))
            (\<lambda>c k. secondwalk 2 k c (0 + n_mod (spread_heap ! 0))) g' = Inr spread_walked \<and>
          n_mod (g ! (n_children (spread_heap ! 0) ! k)) =
            n_mod (spread_heap ! (n_children (spread_heap ! 0) ! k)) +
            (\<Sum>j \<le> k. (\<Sum>l \<le> j. n_shift (spread_heap ! (n_children (spread_heap ! 0) ! l))) +
               n_change (spread_heap ! (n_children (spread_heap ! 0) ! j))) \<and>
          n_shift (g ! (n_children (spread_heap ! 0) ! k)) =
            n_shift (spread_heap ! (n_children (spread_heap ! 0) ! k)) \<and>
          n_change (g ! (n_children (spread_heap ! 0) ! k)) =
            n_change (spread_heap ! (n_children (spread_heap ! 0) ! k))"
    and b: "map n_shift spread_walked = map n_shift spread_heap"
      "map n_change spread_walked = map n_change spread_heap"
    by blast
  from a[rule_format, of 1] obtain g g' where
    "secondwalk 2 g 2 0 = Inr g'" "n_mod (g ! 2) = 15" "n_shift (g ! 2) = 15"
    by (auto simp: c atMost_Suc)
  with b spread_secondwalk spread_tree show ?thesis by blast
qed

section \<open>Conflict resolution in double arithmetic\<close>

lemma rne_cases: "rne q = \<lfloor>q\<rfloor> \<or> rne q = \<lfloor>q\<rfloor> + 1"
  by (simp add: rne_def Let_def)

lemma rne_of_int [simp]: "rne (of_int n) = n"
  by (simp add: rne_def)

lemma rne_mono:
  assumes "q \<le> q'"
  shows "rne q \<le> rne q'"
proof (cases "\<lfloor>q\<rfloor> = \<lfloor>q'\<rfloor>")
  case True
  with assms show ?thesis by (auto simp: rne_def Let_def)
next
  case False
  with floor_mono[OF assms] have "\<lfloor>q\<rfloor> + 1 \<le> \<lfloor>q'\<rfloor>" by simp
  with rne_cases[of q] rne_cases[of q'] show ?thesis by auto
qed

lemma rne_minus: "rne (- q) = - rne q"
proof (cases "q = of_int \<lfloor>q\<rfloor>")
  case True
  then obtain n where n: "q = of_int n" ..
  have "rne (of_int (- n)) = - rne (of_int n)" by (simp only: rne_of_int)
  then show ?thesis by (simp add: n)
next
  case False
  define f where "f = \<lfloor>q\<rfloor>"
  define r where "r = q - of_int f"
  have r: "0 < r" "r < 1"
    using False by (simp_all add: r_def f_def) linarith+
  have fl: "\<lfloor>- q\<rfloor> = - f - 1"
    using r by (simp add: floor_eq_iff r_def)
  have r': "- q - of_int (- f - 1) = 1 - r" by (simp add: r_def)
  have A: "rne q = (if r < 1 / 2 then f else if 1 / 2 < r then f + 1
      else if even f then f else f + 1)"
    by (simp add: rne_def Let_def f_def r_def)
  have B: "rne (- q) = (if 1 - r < 1 / 2 then - f - 1 else if 1 / 2 < 1 - r then - f
      else if even (- f - 1) then - f - 1 else - f)"
    unfolding rne_def Let_def fl r' by simp
  show ?thesis
  proof (cases "r < 1 / 2")
    case True
    then show ?thesis unfolding A B by simp
  next
    case False
    note nl = this
    show ?thesis
    proof (cases "1 / 2 < r")
      case True
      then show ?thesis unfolding A B by simp
    next
      case False
      with nl have "r = 1 / 2" by simp
      then show ?thesis unfolding A B by simp
    qed
  qed
qed

lemma ilog2_bounds:
  assumes "0 < x"
  shows "2 powi (ilog2 x) \<le> x" "x < 2 powi (ilog2 x + 1)"
proof -
  have "2 powi (ilog2 x) \<le> x \<and> x < 2 powi (ilog2 x + 1)"
  proof (cases "1 \<le> x")
    case True
    define n where "n = \<lfloor>x\<rfloor>"
    from True have n: "0 < n" by (simp add: n_def)
    from bitlen_bounds[OF n] have b: "2 ^ nat (bitlen n - 1) \<le> n" "n < 2 ^ nat (bitlen n)"
      by simp_all
    have b1: "1 \<le> bitlen n" using n by (simp add: bitlen_alt_def)
    have e: "ilog2 x = bitlen n - 1" using True by (simp add: ilog2_def n_def)
    have "2 powi (bitlen n - 1) = (2::real) ^ nat (bitlen n - 1)"
      using b1 by (simp add: power_int_nonneg_exp)
    also have "\<dots> = of_int (2 ^ nat (bitlen n - 1))" by simp
    also have "\<dots> \<le> of_int n" using b(1) by (simp only: of_int_le_iff)
    also have "\<dots> \<le> x" by (simp add: n_def)
    finally have 1: "2 powi (ilog2 x) \<le> x" by (simp add: e)
    have "n + 1 \<le> 2 ^ nat (bitlen n)" using b(2) by simp
    then have "real_of_int (n + 1) \<le> of_int (2 ^ nat (bitlen n))" by (simp only: of_int_le_iff)
    moreover have "x < of_int (n + 1)" by (simp add: n_def)
    moreover have "2 powi (bitlen n) = (2::real) ^ nat (bitlen n)"
      using b1 by (simp add: power_int_nonneg_exp)
    ultimately have "x < 2 powi (ilog2 x + 1)" by (simp add: e)
    with 1 show ?thesis by simp
  next
    case False
    define m where "m = \<lceil>1 / x\<rceil> - 1"
    from False assms have "1 < 1 / x" by simp
    then have "1 < \<lceil>1 / x\<rceil>" by (simp add: less_ceiling_iff)
    then have m: "0 < m" by (simp add: m_def)
    from bitlen_bounds[OF m] have b: "2 ^ nat (bitlen m - 1) \<le> m" "m < 2 ^ nat (bitlen m)"
      by simp_all
    have b1: "1 \<le> bitlen m" using m by (simp add: bitlen_alt_def)
    have e: "ilog2 x = - bitlen m" using False by (simp add: ilog2_def m_def)
    have "m + 1 \<le> 2 ^ nat (bitlen m)" using b(2) by simp
    then have "real_of_int (m + 1) \<le> of_int (2 ^ nat (bitlen m))" by (simp only: of_int_le_iff)
    moreover have "1 / x \<le> of_int (m + 1)" by (simp add: m_def)
    ultimately have "1 / x \<le> 2 ^ nat (bitlen m)" by simp
    then have "1 / 2 ^ nat (bitlen m) \<le> x"
      using assms by (simp add: field_simps)
    moreover have "2 powi (- bitlen m) = 1 / (2::real) ^ nat (bitlen m)"
      using b1 by (simp add: power_int_minus_divide power_int_nonneg_exp)
    ultimately have 1: "2 powi (ilog2 x) \<le> x" by (simp add: e)
    have "(2::real) ^ nat (bitlen m - 1) = of_int (2 ^ nat (bitlen m - 1))" by simp
    also have "\<dots> \<le> of_int m" using b(1) by (simp only: of_int_le_iff)
    also have "of_int m < 1 / x" by (simp add: m_def) (metis ceiling_correct diff_less_eq)
    finally have "2 ^ nat (bitlen m - 1) < 1 / x" .
    then have "x < 1 / 2 ^ nat (bitlen m - 1)"
      using assms by (simp add: field_simps)
    moreover have "2 powi (- bitlen m + 1) = 1 / (2::real) ^ nat (bitlen m - 1)"
    proof -
      have "- bitlen m + 1 = - (bitlen m - 1)" by simp
      then show ?thesis
        using b1 by (simp only: power_int_minus_divide) (simp add: power_int_nonneg_exp)
    qed
    ultimately have "x < 2 powi (ilog2 x + 1)" by (simp add: e)
    with 1 show ?thesis by simp
  qed
  then show "2 powi (ilog2 x) \<le> x" "x < 2 powi (ilog2 x + 1)" by simp_all
qed

lemma ilog2_mono:
  assumes "0 < x" "x \<le> y"
  shows "ilog2 x \<le> ilog2 y"
proof (rule ccontr)
  assume "\<not> ilog2 x \<le> ilog2 y"
  then have "ilog2 y + 1 \<le> ilog2 x" by simp
  then have "(2::real) powi (ilog2 y + 1) \<le> 2 powi (ilog2 x)"
    by (intro power_int_increasing) simp_all
  with ilog2_bounds(1)[OF assms(1)] ilog2_bounds(2)[of y] assms show False by simp
qed


lemma ulp_pos [simp]: "0 < ulp x"
  by (simp add: ulp_def)

lemma ulp_minus [simp]: "ulp (- x) = ulp x"
  by (simp add: ulp_def)

lemma dbl_minus: "dbl (- x) = - dbl x"
  by (simp add: dbl_def rne_minus)

lemma dbl_grid_le:
  assumes "x \<le> of_int N * ulp x"
  shows "dbl x \<le> of_int N * ulp x"
proof (cases "x = 0")
  case True
  with assms show ?thesis by (simp add: dbl_def)
next
  case False
  from assms have "x / ulp x \<le> of_int N" by (simp add: field_simps)
  from rne_mono[OF this] have "rne (x / ulp x) \<le> N" by (simp only: rne_of_int)
  then have "real_of_int (rne (x / ulp x)) \<le> of_int N" by (simp only: of_int_le_iff)
  then have "of_int (rne (x / ulp x)) * ulp x \<le> of_int N * ulp x"
    by (rule mult_right_mono) (simp add: less_imp_le)
  with False show ?thesis by (simp add: dbl_def)
qed

lemma dbl_grid_ge:
  assumes "of_int N * ulp x \<le> x"
  shows "of_int N * ulp x \<le> dbl x"
proof (cases "x = 0")
  case True
  with assms show ?thesis by (simp add: dbl_def)
next
  case False
  from assms have "of_int N \<le> x / ulp x" by (simp add: field_simps)
  from rne_mono[OF this] have "N \<le> rne (x / ulp x)" by (simp only: rne_of_int)
  then have "real_of_int N \<le> of_int (rne (x / ulp x))" by (simp only: of_int_le_iff)
  then have "of_int N * ulp x \<le> of_int (rne (x / ulp x)) * ulp x"
    by (rule mult_right_mono) (simp add: less_imp_le)
  with False show ?thesis by (simp add: dbl_def)
qed

lemma dbl_nonneg: "0 \<le> x \<Longrightarrow> 0 \<le> dbl x"
  using dbl_grid_ge[of 0 x] by simp

lemma dbl_nonpos: "x \<le> 0 \<Longrightarrow> dbl x \<le> 0"
  using dbl_grid_le[of x 0] by simp

lemma dbl_mono_pos:
  assumes "0 < x" "x \<le> y"
  shows "dbl x \<le> dbl y"
proof -
  define u where "u = max (ilog2 x - 52) (- 1074)"
  define v where "v = max (ilog2 y - 52) (- 1074)"
  from assms have y: "0 < y" by simp
  have ux: "ulp x = 2 powi u" using assms(1) by (simp add: ulp_def u_def)
  have uy: "ulp y = 2 powi v" using y by (simp add: ulp_def v_def)
  have uv: "u \<le> v" using ilog2_mono[OF assms] by (simp add: u_def v_def)
  show ?thesis
  proof (cases "u = v")
    case True
    then have e: "ulp y = ulp x" by (simp add: ux uy)
    have "x / ulp x \<le> y / ulp x"
      using assms(2) by (simp add: divide_right_mono less_imp_le)
    from rne_mono[OF this] have "real_of_int (rne (x / ulp x)) \<le> of_int (rne (y / ulp x))"
      by (simp only: of_int_le_iff)
    then have "of_int (rne (x / ulp x)) * ulp x \<le> of_int (rne (y / ulp x)) * ulp x"
      by (rule mult_right_mono) (simp add: less_imp_le)
    with assms(1) y show ?thesis by (simp add: dbl_def e)
  next
    case False
    with uv have lt: "u < v" by simp
    then have v: "v = ilog2 y - 52" unfolding v_def u_def by linarith
    from lt have ex: "ilog2 x + 1 \<le> ilog2 y" unfolding v u_def by linarith
    define P :: real where "P = 2 powi (ilog2 y)"
    have "x < 2 powi (ilog2 x + 1)" using assms(1) by (rule ilog2_bounds)
    also have "\<dots> \<le> P" unfolding P_def using ex by (intro power_int_increasing) simp_all
    finally have xP: "x \<le> P" by simp
    have Py: "P \<le> y" unfolding P_def using y by (rule ilog2_bounds)
    have "P = 2 powi 52 * 2 powi v"
      unfolding P_def v by (simp add: power_int_add[symmetric] del: power_int_numeral)
    then have P1: "P = of_int (2 ^ 52) * ulp y" by (simp add: uy)
    have k: "0 \<le> ilog2 y - u" using lt v by simp
    have "P = 2 powi (ilog2 y - u) * 2 powi u"
      unfolding P_def by (simp add: power_int_add[symmetric])
    also have "2 powi (ilog2 y - u) = (2::real) ^ nat (ilog2 y - u)"
      using k by (simp add: power_int_nonneg_exp)
    finally have P2: "P = of_int (2 ^ nat (ilog2 y - u)) * ulp x" by (simp add: ux)
    have "dbl x \<le> P" using dbl_grid_le[of x "2 ^ nat (ilog2 y - u)"] xP P2 by simp
    moreover have "P \<le> dbl y" using dbl_grid_ge[of "2 ^ 52" y] Py P1 by simp
    ultimately show ?thesis by simp
  qed
qed

lemma dbl_mono:
  assumes "x \<le> y"
  shows "dbl x \<le> dbl y"
proof (cases "0 < x")
  case True
  then show ?thesis using assms by (rule dbl_mono_pos)
next
  case False
  note x = this
  show ?thesis
  proof (cases "0 \<le> y")
    case True
    with x dbl_nonneg[of y] dbl_nonpos[of x] show ?thesis by simp
  next
    case False
    with assms have "0 < - y" "- y \<le> - x" by simp_all
    from dbl_mono_pos[OF this] show ?thesis by (simp add: dbl_minus)
  qed
qed

lemma dbl_add_ge:
  assumes "dbl m = m" "0 \<le> d"
  shows "m \<le> dbl (m + d)"
proof -
  have "dbl m \<le> dbl (m + d)" using assms(2) by (intro dbl_mono) simp
  with assms(1) show ?thesis by simp
qed


lemma fl_exact:
  "bottom_fl (\<lambda>x. x) = bottom" "advance_fl (\<lambda>x. x) = advance"
  "distribute_extra_fl (\<lambda>x. x) = distribute_extra" "move_subtree_fl (\<lambda>x. x) = move_subtree"
  "separate_step_fl (\<lambda>x. x) = separate_step"
proof -
  show 1: "bottom_fl (\<lambda>x. x) = bottom" by (intro ext) (simp add: bottom_fl_def bottom_def)
  show 2: "advance_fl (\<lambda>x. x) = advance" by (intro ext) (simp add: advance_fl_def advance_def)
  show 3: "distribute_extra_fl (\<lambda>x. x) = distribute_extra"
    by (intro ext) (simp add: distribute_extra_fl_def distribute_extra_def)
  show 4: "move_subtree_fl (\<lambda>x. x) = move_subtree"
    by (intro ext) (simp add: move_subtree_fl_def move_subtree_def 3)
  show "separate_step_fl (\<lambda>x. x) = separate_step"
    by (intro ext) (simp only: separate_step_fl_def separate_step_def 1 2 4)
qed

lemma distribute_extra_fl_frame:
  assumes "distribute_extra_fl rnd h t i si d = Inr h'"
    and "ign n_shift_update g" "ign n_change_update g"
  shows "map g h' = map g h"
  using assms
  by (auto simp: distribute_extra_fl_def Let_def ign_def rbind_eq_Inr split: if_splits
      dest!: upd_child_frame[where g = g])

lemma move_subtree_fl_mod:
  assumes "move_subtree_fl rnd h t i si d = Inr h'" and "child h t i = Inr c"
  shows "n_mod (h' ! c) = rnd (n_mod (h ! c) + d) \<and> n_msel (h' ! c) = rnd (n_msel (h ! c) + d) \<and>
         n_mser (h' ! c) = rnd (n_mser (h ! c) + d)"
proof -
  from assms(1) obtain h1 h2 h3 where
    1: "upd_child h t i (\<lambda>n. n\<lparr>n_mod := rnd (n_mod n + d)\<rparr>) = Inr h1" and
    2: "upd_child h1 t i (\<lambda>n. n\<lparr>n_msel := rnd (n_msel n + d)\<rparr>) = Inr h2" and
    3: "upd_child h2 t i (\<lambda>n. n\<lparr>n_mser := rnd (n_mser n + d)\<rparr>) = Inr h3" and
    4: "distribute_extra_fl rnd h3 t i si d = Inr h'"
    by (auto simp: move_subtree_fl_def rbind_eq_Inr)
  have c1: "child h1 t i = Inr c"
    using child_cong[OF upd_child_frame[OF 1, of n_children], of t i] assms(2) by simp
  have c2: "child h2 t i = Inr c"
    using child_cong[OF upd_child_frame[OF 2, of n_children], of t i] c1 by simp
  have l: "c < length h" using 1 assms(2) by (auto simp: upd_child_Inr)
  have h1: "h1 = h[c := (h ! c)\<lparr>n_mod := rnd (n_mod (h ! c) + d)\<rparr>]"
    using 1 assms(2) by (auto simp: upd_child_Inr)
  have h2: "h2 = h1[c := (h1 ! c)\<lparr>n_msel := rnd (n_msel (h1 ! c) + d)\<rparr>]"
    using 2 c1 by (auto simp: upd_child_Inr)
  have h3: "h3 = h2[c := (h2 ! c)\<lparr>n_mser := rnd (n_mser (h2 ! c) + d)\<rparr>]"
    using 3 c2 by (auto simp: upd_child_Inr)
  have e: "n_mod (h3 ! c) = rnd (n_mod (h ! c) + d) \<and> n_msel (h3 ! c) = rnd (n_msel (h ! c) + d) \<and>
           n_mser (h3 ! c) = rnd (n_mser (h ! c) + d)"
    using l by (simp add: h1 h2 h3)
  have l3: "c < length h3" using l by (simp add: h1 h2 h3)
  have "n_mod (h' ! c) = n_mod (h3 ! c)" "n_msel (h' ! c) = n_msel (h3 ! c)"
    "n_mser (h' ! c) = n_mser (h3 ! c)"
    using distribute_extra_fl_frame[OF 4, of n_mod] distribute_extra_fl_frame[OF 4, of n_msel]
      distribute_extra_fl_frame[OF 4, of n_mser] l3
    by (auto simp: ign_def dest: map_eq_nth)
  with e show ?thesis by simp
qed

lemma separate_step_fl_move:
  assumes "separate_step_fl rnd h t i cursor s c mssr mscl = Inr st"
  defines "dst \<equiv> rnd (rnd (rnd (rnd (mssr + n_prelim (h ! s)) + n_w (h ! s)) + H_SPACING)
                 - rnd (mscl + n_prelim (h ! c)))"
  shows "(dst \<le> 0 \<and> st_heap st = h) \<or>
         (0 < dst \<and> (\<exists>si. move_subtree_fl rnd h t i si dst = Inr (st_heap st)))"
  using assms(1) unfolding dst_def
  by (auto simp: separate_step_fl_def rbind_eq_Inr Let_def get_Inr split: prod.splits if_splits)

lemma absorb_dbl:
  "dbl 576460752303423518 = 576460752303423488" "dbl 70 = 70" "dbl 130 = 130"
  "dbl 0 = 0" "dbl 10 = 10" "dbl 30 = 30"
  by code_simp+

lemma absorb_bottom:
  "bottom_fl dbl absorb_heap 3 = Inr 70" "bottom_fl dbl absorb_heap 2 = Inr 130"
  by code_simp+

lemma absorb_contour: "next_right_contour absorb_heap 3 = Inr None"
  by code_simp

lemma absorb_move: "move_subtree_fl dbl absorb_heap 0 1 0 30 = Inr absorb_heap"
  by code_simp

lemma absorb_fields:
  "get absorb_heap 3 = Inr (absorb_heap ! 3)" "get absorb_heap 2 = Inr (absorb_heap ! 2)"
  "n_prelim (absorb_heap ! 3) = 0" "n_w (absorb_heap ! 3) = 10"
  "n_prelim (absorb_heap ! 2) = - 576460752303423488"
  by (simp_all add: get_def absorb_heap_def fresh_def)

lemma absorb_step:
  "separate_step_fl dbl absorb_heap 0 1 [IYL 40 0] 3 2 0 (2 ^ 59) =
     Inr \<lparr>st_heap = absorb_heap, st_cursor = [], st_sr = None, st_cl = Some 2,
          st_mssr = 0, st_mscl = 2 ^ 59\<rparr>"
  unfolding separate_step_fl_def
  by (simp add: absorb_dbl absorb_bottom absorb_contour absorb_fields absorb_move Let_def
      advance_fl_def H_SPACING_def)

lemma absorb_dist:
  "dbl (dbl (dbl (dbl (0 + n_prelim (absorb_heap ! 3)) + n_w (absorb_heap ! 3)) + H_SPACING)
        - dbl (2 ^ 59 + n_prelim (absorb_heap ! 2))) = 30"
  by (simp add: absorb_dbl absorb_fields H_SPACING_def)

lemma absorb_child: "child absorb_heap 0 1 = Inr 2" "n_mod (absorb_heap ! 2) = 2 ^ 59"
  "n_msel (absorb_heap ! 2) = 2 ^ 59" "n_mser (absorb_heap ! 2) = 2 ^ 59"
  by code_simp+

text \<open>
  C9 (as the specification states it): every call of \<^verbatim>\<open>move_subtree\<close> made by
  \<^verbatim>\<open>separate\<close> strictly increases \<open>mod\<close>, \<open>msel\<close> and \<open>mser\<close> of the child being placed.
  The store \<open>absorb_heap\<close> is the one reached in \<^verbatim>\<open>separate(root, 1, ih)\<close> after the first
  iteration of the loop, on a root with the children 1 (\<open>w = h = 10\<close>, one leaf child 3) and
  2 (\<open>w = 2^60\<close>, \<open>h = 100\<close>, one leaf child 4 of width 0): child 2 has
  \<open>prelim = - 2^59\<close> and has been moved by \<open>2^59\<close>, the right contour has advanced to node 3.
  The second iteration computes \<open>dist = 30 > 0\<close> and calls \<^verbatim>\<open>move_subtree\<close> with it, and
  the three sums \<open>2^59 + 30\<close> round back to \<open>2^59\<close>: the call leaves the store as it was.
\<close>

theorem move_absorbed_by_rounding:
  "separate_step_fl dbl absorb_heap 0 1 [IYL 40 0] 3 2 0 (2 ^ 59) =
     Inr \<lparr>st_heap = absorb_heap, st_cursor = [], st_sr = None, st_cl = Some 2,
          st_mssr = 0, st_mscl = 2 ^ 59\<rparr> \<and>
   dbl (dbl (dbl (dbl (0 + n_prelim (absorb_heap ! 3)) + n_w (absorb_heap ! 3)) + H_SPACING)
        - dbl (2 ^ 59 + n_prelim (absorb_heap ! 2))) = 30 \<and>
   move_subtree_fl dbl absorb_heap 0 1 0 30 = Inr absorb_heap \<and>
   child absorb_heap 0 1 = Inr 2 \<and> n_mod (absorb_heap ! 2) = 2 ^ 59 \<and>
   n_msel (absorb_heap ! 2) = 2 ^ 59 \<and> n_mser (absorb_heap ! 2) = 2 ^ 59"
  by (intro conjI absorb_step absorb_dist absorb_move absorb_child)

lemma small_dbl: "dbl 0 = 0" "dbl 10 = 10" "dbl 30 = 30" "dbl 40 = 40"
  by code_simp+

lemma two_leaves_move:
  "move_subtree_fl dbl two_leaves_heap 0 1 0 30 = Inr (st_heap two_leaves_step)"
  by code_simp

lemma two_leaves_fields:
  "get two_leaves_heap (Suc 0) = Inr (two_leaves_heap ! Suc 0)"
  "get two_leaves_heap 2 = Inr (two_leaves_heap ! 2)"
  "n_prelim (two_leaves_heap ! Suc 0) = 0" "n_w (two_leaves_heap ! Suc 0) = 10"
  "n_prelim (two_leaves_heap ! 2) = 0"
  "bottom_fl dbl two_leaves_heap (Suc 0) = Inr 40"
  "bottom_fl dbl (st_heap two_leaves_step) (Suc 0) = Inr 40"
  "bottom_fl dbl (st_heap two_leaves_step) 2 = Inr 40"
  "next_right_contour (st_heap two_leaves_step) (Suc 0) = Inr None"
  "next_left_contour (st_heap two_leaves_step) 2 = Inr None"
  by code_simp+

lemma two_leaves_step_dbl:
  "separate_step_fl dbl two_leaves_heap 0 1 [IYL 40 0] 1 2 0 0 = Inr two_leaves_step"
  unfolding separate_step_fl_def
  by (simp add: two_leaves_move two_leaves_fields small_dbl Let_def advance_fl_def H_SPACING_def)
    (simp add: two_leaves_step_def)

lemma two_leaves_dbl: "list_all dbl_node two_leaves_heap"
  by code_simp

text \<open>
  C9 (amended): in double arithmetic, on a store whose \<open>mod\<close>, \<open>msel\<close> and \<open>mser\<close> are
  doubles, an iteration of the loop of \<^verbatim>\<open>separate\<close> either leaves the store alone (when
  \<open>dist \<le> 0\<close>) or changes it by one call of \<^verbatim>\<open>move_subtree\<close> with \<open>dist > 0\<close>; that call
  replaces \<open>mod\<close>, \<open>msel\<close> and \<open>mser\<close> of child \<open>i\<close> by the double nearest to their sum
  with \<open>dist\<close>, which is not below the old value: the subtree being placed is never displaced
  leftward.
\<close>

theorem separate_step_never_left:
  assumes "separate_step_fl dbl h t i cursor s c mssr mscl = Inr st" and "list_all dbl_node h"
  defines "dst \<equiv> dbl (dbl (dbl (dbl (mssr + n_prelim (h ! s)) + n_w (h ! s)) + H_SPACING)
                 - dbl (mscl + n_prelim (h ! c)))"
  shows "(dst \<le> 0 \<and> st_heap st = h) \<or>
         (0 < dst \<and> (\<exists>si ci. move_subtree_fl dbl h t i si dst = Inr (st_heap st) \<and>
            child h t i = Inr ci \<and>
            n_mod (st_heap st ! ci) = dbl (n_mod (h ! ci) + dst) \<and>
            n_msel (st_heap st ! ci) = dbl (n_msel (h ! ci) + dst) \<and>
            n_mser (st_heap st ! ci) = dbl (n_mser (h ! ci) + dst) \<and>
            n_mod (h ! ci) \<le> n_mod (st_heap st ! ci) \<and>
            n_msel (h ! ci) \<le> n_msel (st_heap st ! ci) \<and>
            n_mser (h ! ci) \<le> n_mser (st_heap st ! ci)))"
proof (cases "0 < dst")
  case False
  with separate_step_fl_move[OF assms(1)] show ?thesis by (auto simp: dst_def)
next
  case True
  with separate_step_fl_move[OF assms(1)] obtain si where
    mv: "move_subtree_fl dbl h t i si dst = Inr (st_heap st)"
    by (auto simp: dst_def)
  then obtain ci where ci: "child h t i = Inr ci"
    by (auto simp: move_subtree_fl_def upd_child_def rbind_eq_Inr)
  note e = move_subtree_fl_mod[OF mv ci]
  have "ci < length h" using mv ci by (auto simp: move_subtree_fl_def upd_child_Inr rbind_eq_Inr)
  with assms(2) have d: "dbl_node (h ! ci)" by (simp add: list_all_length)
  have "n_mod (h ! ci) \<le> dbl (n_mod (h ! ci) + dst)"
    "n_msel (h ! ci) \<le> dbl (n_msel (h ! ci) + dst)"
    "n_mser (h ! ci) \<le> dbl (n_mser (h ! ci) + dst)"
    using d True by (simp_all add: dbl_node_def dbl_add_ge)
  with e True mv ci show ?thesis by auto
qed

theorem separate_step_never_left_witness:
  "separate_step_fl dbl two_leaves_heap 0 1 [IYL 40 0] 1 2 0 0 = Inr two_leaves_step \<and>
   list_all dbl_node two_leaves_heap \<and>
   n_mod (st_heap two_leaves_step ! 2) = dbl (n_mod (two_leaves_heap ! 2) + 30) \<and>
   n_mod (two_leaves_heap ! 2) \<le> n_mod (st_heap two_leaves_step ! 2)"
  using separate_step_never_left[OF two_leaves_step_dbl two_leaves_dbl] two_leaves_step_dbl
    two_leaves_dbl
  by (simp add: two_leaves_heap_def two_leaves_step_def fresh_def H_SPACING_def child_Inr
      small_dbl)

end
